theory Spec2Isabelle
  imports Complex_Main "HOL-Library.Word"
begin

text \<open>
  \<^verbatim>\<open>binary_playground\<close> is a small C program: three summation functions, of three
  scalars, of three vectors in place and of the fields of two records, and a main that
  parses a command line, optionally loads the same three functions from a shared
  library, and prints the result of one of them.

  The theory embeds the program in HOL, function by function and under the names of the
  source, together with the parts of the C language and library that its behaviour
  rests on: single and double precision arithmetic, the conversions of \<^verbatim>\<open>strtof\<close> and
  \<^verbatim>\<open>printf\<close>, \<^verbatim>\<open>getopt_long\<close> and the dynamic loader. It then proves what the
  specification says of the program, or shows where the program does otherwise.
\<close>

section \<open>Floating-point values of the C types float and double\<close>

text \<open>
  The arithmetic core of \<^verbatim>\<open>binary_playground.c\<close> adds values of the C types
  \<^verbatim>\<open>float\<close> and \<^verbatim>\<open>double\<close>. On the targets the program is built for (Linux and
  macOS, where \<^verbatim>\<open>FLT_EVAL_METHOD\<close> is 0) these are the IEEE-754 formats binary32 and
  binary64, and \<^verbatim>\<open>+\<close> is IEEE-754 addition in the default rounding mode, round to
  nearest with ties to even.

  A value is a signed zero or a finite number \<open>(-1)^s * m * 2^e\<close>, an infinity or a NaN
  (sign and payload of a NaN are not distinguished). A format gives the precision
  \<open>prec\<close> in bits and the least and greatest exponent \<open>qmin\<close>, \<open>qmax\<close> of the integral
  significand \<open>m < 2^prec\<close>.
\<close>

datatype fp = Finite bool nat int | Infinity bool | NaN

record format =
  prec :: nat
  qmin :: int
  qmax :: int

definition binary32 :: format where
  "binary32 = \<lparr>prec = 24, qmin = - 149, qmax = 104\<rparr>"

definition binary64 :: format where
  "binary64 = \<lparr>prec = 53, qmin = - 1074, qmax = 971\<rparr>"

type_synonym c_float = fp
type_synonym c_double = fp

text \<open>The values of a format: the significand and the exponent are within its bounds.\<close>

definition is_value :: "format \<Rightarrow> fp \<Rightarrow> bool" where
  "is_value f v =
     (case v of
        Finite s m e \<Rightarrow> m < 2 ^ prec f \<and> qmin f \<le> e \<and> e \<le> qmax f
      | Infinity s \<Rightarrow> True
      | NaN \<Rightarrow> True)"

text \<open>The real number that a finite value stands for.\<close>

definition valof :: "fp \<Rightarrow> real" where
  "valof v =
     (case v of
        Finite s m e \<Rightarrow> (if s then - real m else real m) * 2 powi e
      | Infinity s \<Rightarrow> 0
      | NaN \<Rightarrow> 0)"

text \<open>Number of binary digits of a natural number.\<close>

fun bitlen :: "nat \<Rightarrow> nat" where
  "bitlen n = (if n = 0 then 0 else Suc (bitlen (n div 2)))"

declare bitlen.simps [simp del]

text \<open>The integer nearest to \<open>n / d\<close>, a tie going to the even one (\<open>d > 0\<close>).\<close>

definition round_half_even :: "nat \<Rightarrow> nat \<Rightarrow> nat" where
  "round_half_even n d =
     (let q = n div d; r = n mod d
      in if 2 * r < d then q
         else if d < 2 * r then q + 1
         else if even q then q else q + 1)"

text \<open>
  \<open>round_fp f s n d\<close> is the value of format \<open>f\<close> nearest to \<open>(-1)^s * n / d\<close>
  (for \<open>d > 0\<close>), ties to even, overflowing to an infinity and underflowing gradually
  through the subnormal numbers to zero.
\<close>

definition round_fp :: "format \<Rightarrow> bool \<Rightarrow> nat \<Rightarrow> nat \<Rightarrow> fp" where
  "round_fp f s n d =
     (if n = 0 then Finite s 0 (qmin f)
      else
        let k = int (bitlen n) - int (bitlen d);
            lg = (if d * 2 ^ nat k \<le> n * 2 ^ nat (- k) then k else k - 1);
            e = max (qmin f) (lg - (int (prec f) - 1));
            m = round_half_even (n * 2 ^ nat (- e)) (d * 2 ^ nat e);
            m' = (if m = 2 ^ prec f then 2 ^ (prec f - 1) else m);
            e' = (if m = 2 ^ prec f then e + 1 else e)
        in if qmax f < e' then Infinity s else Finite s m' e')"

text \<open>The integer \<open>(-1)^s * m\<close>.\<close>

definition with_sign :: "bool \<Rightarrow> nat \<Rightarrow> int" where
  "with_sign s m = (if s then - int m else int m)"

text \<open>
  IEEE-754 addition: the exact sum, rounded. An exact zero sum is \<open>-0\<close> only when both
  operands are negative (zeros).
\<close>

fun fadd :: "format \<Rightarrow> fp \<Rightarrow> fp \<Rightarrow> fp" where
  "fadd f NaN y = NaN"
| "fadd f (Infinity s) NaN = NaN"
| "fadd f (Infinity s) (Infinity t) = (if s = t then Infinity s else NaN)"
| "fadd f (Infinity s) (Finite t n g) = Infinity s"
| "fadd f (Finite s m e) NaN = NaN"
| "fadd f (Finite s m e) (Infinity t) = Infinity t"
| "fadd f (Finite s m e) (Finite t n g) =
     (let e0 = min e g;
          z = with_sign s m * 2 ^ nat (e - e0) + with_sign t n * 2 ^ nat (g - e0)
      in if z = 0 then Finite (s \<and> t) 0 (qmin f)
         else round_fp f (z < 0) (nat \<bar>z\<bar> * 2 ^ nat e0) (2 ^ nat (- e0)))"

definition fadd32 :: "c_float \<Rightarrow> c_float \<Rightarrow> c_float" where
  "fadd32 = fadd binary32"

definition fadd64 :: "c_double \<Rightarrow> c_double \<Rightarrow> c_double" where
  "fadd64 = fadd binary64"

subsection \<open>The sum that IEEE 754 specifies\<close>

text \<open>
  \<^verbatim>\<open>fadd\<close> above computes; the standard specifies. The three definitions that follow
  are written from the text of IEEE 754 (sections 4.3.1, 6.1, 6.2 and 6.3), over the real
  numbers and without reference to \<^verbatim>\<open>round_fp\<close> or \<^verbatim>\<open>fadd\<close>, so that the sum
  computed can be compared with the sum specified.

  Rounding to nearest, ties to even: an exact result whose magnitude is at least
  \<open>2^emax * (2 - 2^-p)\<close>, the \<open>threshold\<close>, which with the integral significand is
  \<open>(2^prec - 1/2) * 2^qmax\<close>, rounds to the infinity of its sign. Below it the result is the value
  of the format nearest to the exact result; of two values equally near, the one whose
  significand, in the representation with the least exponent, is even. The result has
  the sign of the exact result also when it is a zero.
\<close>

definition threshold :: "format \<Rightarrow> real" where
  "threshold f = (2 ^ prec f - 1 / 2) * 2 powi qmax f"

definition nearest_even :: "format \<Rightarrow> real \<Rightarrow> fp \<Rightarrow> bool" where
  "nearest_even f r w =
     (case w of
        Finite s m e \<Rightarrow>
          is_value f w \<and> (2 ^ (prec f - 1) \<le> m \<or> e = qmin f) \<and>
          \<bar>r\<bar> < threshold f \<and> (r < 0 \<longrightarrow> s) \<and> (0 < r \<longrightarrow> \<not> s) \<and>
          (\<forall>s' m' e'. is_value f (Finite s' m' e') \<longrightarrow>
             \<bar>valof w - r\<bar> \<le> \<bar>valof (Finite s' m' e') - r\<bar> \<and>
             (valof (Finite s' m' e') \<noteq> valof w \<and>
              \<bar>valof (Finite s' m' e') - r\<bar> = \<bar>valof w - r\<bar> \<longrightarrow> even m))
      | Infinity s \<Rightarrow> threshold f \<le> \<bar>r\<bar> \<and> (s \<longleftrightarrow> r < 0)
      | NaN \<Rightarrow> False)"

text \<open>
  \<open>ieee_add f u v w\<close>: the standard allows \<open>w\<close> as the sum of \<open>u\<close> and \<open>v\<close> in the
  format \<open>f\<close>. A NaN operand gives a NaN; infinities of opposite signs give a NaN
  (the invalid operation), otherwise an infinite operand gives that infinity; two finite
  operands give their exact sum, rounded. An exact sum that is zero has the sign of the
  operands when they agree in sign, and is \<open>+0\<close> otherwise.
\<close>

definition ieee_add :: "format \<Rightarrow> fp \<Rightarrow> fp \<Rightarrow> fp \<Rightarrow> bool" where
  "ieee_add f u v w =
     (case u of
        NaN \<Rightarrow> w = NaN
      | Infinity s \<Rightarrow>
          (case v of
             NaN \<Rightarrow> w = NaN
           | Infinity t \<Rightarrow> w = (if s = t then Infinity s else NaN)
           | Finite t n g \<Rightarrow> w = Infinity s)
      | Finite s m e \<Rightarrow>
          (case v of
             NaN \<Rightarrow> w = NaN
           | Infinity t \<Rightarrow> w = Infinity t
           | Finite t n g \<Rightarrow>
               nearest_even f (valof u + valof v) w \<and>
               (valof u + valof v = 0 \<longrightarrow> w = Finite (if s = t then s else False) 0 (qmin f))))"


section \<open>The arithmetic core\<close>

subsection \<open>sum_scalars\<close>

text \<open>
  \<^verbatim>\<open>float sum_scalars(float a, float b, float c) { return a + b + c; }\<close>
  The C grammar parses \<^verbatim>\<open>a + b + c\<close> as \<^verbatim>\<open>(a + b) + c\<close>.
\<close>

definition sum_scalars :: "c_float \<Rightarrow> c_float \<Rightarrow> c_float \<Rightarrow> c_float" where
  "sum_scalars a b c = fadd32 (fadd32 a b) c"

subsection \<open>sum_vectors\<close>

text \<open>
  \<^verbatim>\<open>sum_vectors\<close> receives three pointers into memory, which the language allows to
  overlap. Memory is a store of float cells; an address counts cells, so that the
  pointer \<^verbatim>\<open>v + i\<close> is the address \<open>v + i\<close>. A cell outside every object is absent from
  the store, and reading or writing it (undefined behaviour in C) ends the run with
  \<open>None\<close>. The counter \<^verbatim>\<open>i\<close> stays below \<^verbatim>\<open>len\<close>, so \<^verbatim>\<open>++i\<close> never wraps.
\<close>

type_synonym addr = nat
type_synonym fmem = "addr \<rightharpoonup> c_float"

function sum_vectors_from :: "nat \<Rightarrow> fmem \<Rightarrow> addr \<Rightarrow> addr \<Rightarrow> addr \<Rightarrow> nat \<Rightarrow> fmem option" where
  "sum_vectors_from i h v1 v2 v3 len =
     (if i < len then
        (case h (v1 + i) of None \<Rightarrow> None | Some x \<Rightarrow>
           (case h (v2 + i) of None \<Rightarrow> None | Some y \<Rightarrow>
              (case h (v3 + i) of None \<Rightarrow> None | Some z \<Rightarrow>
                 sum_vectors_from (Suc i) (h(v1 + i \<mapsto> fadd32 (fadd32 x y) z)) v1 v2 v3 len)))
      else Some h)"
  by pat_completeness auto
termination
  by (relation "measure (\<lambda>(i, h, v1, v2, v3, len). len - i)") auto

declare sum_vectors_from.simps [simp del]

definition sum_vectors :: "fmem \<Rightarrow> addr \<Rightarrow> addr \<Rightarrow> addr \<Rightarrow> nat \<Rightarrow> fmem option" where
  "sum_vectors h v1 v2 v3 len = sum_vectors_from 0 h v1 v2 v3 len"

text \<open>The cells \<open>v, ..., v + len - 1\<close> all belong to objects of the store.\<close>

definition allocated :: "fmem \<Rightarrow> addr \<Rightarrow> nat \<Rightarrow> bool" where
  "allocated h v len = list_all (\<lambda>i. h (v + i) \<noteq> None) [0..<len]"

subsection \<open>sum_structs\<close>

text \<open>
  \<^verbatim>\<open>typedef struct { int x; float y; double z; } MyStruct;\<close>
  The \<^verbatim>\<open>int\<close> of the targets has 32 bits. Signed overflow is undefined in C; the
  machine instruction that the addition compiles to wraps around, and the model wraps.
\<close>

type_synonym c_int = "32 word"

record MyStruct =
  x :: c_int
  y :: c_float
  z :: c_double

text \<open>
  The two arguments are pointers to records, which may be the same record. The function
  reads them and returns a record by value; the store is returned as it was received.
  A pointer to no record ends the run with \<open>None\<close>.
\<close>

type_synonym smem = "addr \<rightharpoonup> MyStruct"

definition sum_structs :: "smem \<Rightarrow> addr \<Rightarrow> addr \<Rightarrow> (MyStruct \<times> smem) option" where
  "sum_structs h s1 s2 =
     (case h s1 of None \<Rightarrow> None | Some r1 \<Rightarrow>
        (case h s2 of None \<Rightarrow> None | Some r2 \<Rightarrow>
           Some (\<lparr>x = x r1 + x r2, y = fadd32 (y r1) (y r2), z = fadd64 (z r1) (z r2)\<rparr>, h)))"

section \<open>The C library functions that main calls\<close>

text \<open>
  The functions of this section belong to the C library, not to the program. They are
  modelled as the C standard and the GNU library describe them, as far as main can
  observe them.
\<close>

subsection \<open>printf conversions\<close>

definition nl :: string where
  "nl = [CHR 0x0A]"

definition digit_char :: "nat \<Rightarrow> char" where
  "digit_char d = ''0123456789'' ! d"

fun dec_nat :: "nat \<Rightarrow> string" where
  "dec_nat n = (if n < 10 then [digit_char n] else dec_nat (n div 10) @ [digit_char (n mod 10)])"

declare dec_nat.simps [simp del]

text \<open>\<^verbatim>\<open>%d\<close> of an \<^verbatim>\<open>int\<close>.\<close>

definition fmt_d :: "c_int \<Rightarrow> string" where
  "fmt_d v = (if sint v < 0 then CHR ''-'' # dec_nat (nat (- sint v)) else dec_nat (nat (sint v)))"

text \<open>
  A \<^verbatim>\<open>float\<close> argument of a variadic function is promoted to \<^verbatim>\<open>double\<close>; the value
  does not change.
\<close>

fun double_of_float :: "c_float \<Rightarrow> c_double" where
  "double_of_float (Finite s m e) = round_fp binary64 s (m * 2 ^ nat e) (2 ^ nat (- e))"
| "double_of_float (Infinity s) = Infinity s"
| "double_of_float NaN = NaN"

definition pad_zero :: "nat \<Rightarrow> string \<Rightarrow> string" where
  "pad_zero w ds = replicate (w - length ds) CHR ''0'' @ ds"

text \<open>
  \<^verbatim>\<open>%f\<close> of a \<^verbatim>\<open>double\<close>: the exact value, rounded to six digits after the decimal
  point (to nearest, ties to even). The sign of a NaN is not modelled.
\<close>

fun fmt_f :: "c_double \<Rightarrow> string" where
  "fmt_f NaN = ''nan''"
| "fmt_f (Infinity s) = (if s then ''-inf'' else ''inf'')"
| "fmt_f (Finite s m e) =
     (let n = round_half_even (m * 10 ^ 6 * 2 ^ nat e) (2 ^ nat (- e))
      in (if s then ''-'' else []) @ dec_nat (n div 10 ^ 6) @ ''.'' @
         pad_zero 6 (dec_nat (n mod 10 ^ 6)))"

subsection \<open>strtof\<close>

definition isspace :: "char \<Rightarrow> bool" where
  "isspace k = (k \<in> set [CHR '' '', CHR 0x09, CHR 0x0A, CHR 0x0B, CHR 0x0C, CHR 0x0D])"

definition isdigit :: "char \<Rightarrow> bool" where
  "isdigit k = (k \<in> set ''0123456789'')"

definition isxdigit :: "char \<Rightarrow> bool" where
  "isxdigit k = (k \<in> set ''0123456789abcdefABCDEF'')"

definition tolower :: "char \<Rightarrow> char" where
  "tolower k =
     (case map_of (zip ''ABCDEFGHIJKLMNOPQRSTUVWXYZ'' ''abcdefghijklmnopqrstuvwxyz'') k of
        None \<Rightarrow> k
      | Some l \<Rightarrow> l)"

definition xdigit_val :: "char \<Rightarrow> nat" where
  "xdigit_val k = (if isdigit k then of_char k - 48 else of_char (tolower k) - 87)"

text \<open>The number that a string of digits denotes in base \<open>bs\<close>.\<close>

definition digits_value :: "nat \<Rightarrow> string \<Rightarrow> nat" where
  "digits_value bs ds = foldl (\<lambda>n k. bs * n + xdigit_val k) 0 ds"

text \<open>
  The exponent part: the marker (\<^verbatim>\<open>e\<close> or \<^verbatim>\<open>p\<close>, in either case), an optional sign and
  at least one decimal digit. Anything else is no exponent part and leaves the exponent 0.
\<close>

definition exponent_part :: "char \<Rightarrow> string \<Rightarrow> int" where
  "exponent_part mk r =
     (case r of
        [] \<Rightarrow> 0
      | k # r1 \<Rightarrow>
          if tolower k \<noteq> mk then 0
          else (case r1 of
                  [] \<Rightarrow> 0
                | d # r2 \<Rightarrow>
                    if d = CHR ''-'' \<and> r2 \<noteq> [] \<and> isdigit (hd r2)
                      then - int (digits_value 10 (takeWhile isdigit r2))
                    else if d = CHR ''+'' \<and> r2 \<noteq> [] \<and> isdigit (hd r2)
                      then int (digits_value 10 (takeWhile isdigit r2))
                    else if isdigit d then int (digits_value 10 (takeWhile isdigit r1))
                    else 0))"

text \<open>The value of format \<open>f\<close> nearest to \<open>(-1)^s * m * bs^k\<close>.\<close>

definition scaled :: "format \<Rightarrow> bool \<Rightarrow> nat \<Rightarrow> nat \<Rightarrow> int \<Rightarrow> fp" where
  "scaled f s m bs k = round_fp f s (m * bs ^ nat k) (bs ^ nat (- k))"

text \<open>
  A decimal number: digits with an optional point and an optional exponent part. With no
  digit at all nothing is converted and the result is zero.
\<close>

definition strto_dec :: "format \<Rightarrow> bool \<Rightarrow> string \<Rightarrow> fp" where
  "strto_dec f s r =
     (let ip = takeWhile isdigit r;
          r1 = dropWhile isdigit r;
          pt = (r1 \<noteq> [] \<and> hd r1 = CHR ''.'');
          fr = (if pt then takeWhile isdigit (tl r1) else []);
          r2 = (if pt then dropWhile isdigit (tl r1) else r1)
      in if ip = [] \<and> fr = [] then Finite False 0 (qmin f)
         else scaled f s (digits_value 10 (ip @ fr)) 10
                (exponent_part CHR ''e'' r2 - int (length fr)))"

text \<open>
  A hexadecimal number, after its prefix \<^verbatim>\<open>0x\<close>: hexadecimal digits with an optional
  point and an optional binary exponent part.
\<close>

definition strto_hex :: "format \<Rightarrow> bool \<Rightarrow> string \<Rightarrow> fp" where
  "strto_hex f s r =
     (let ip = takeWhile isxdigit r;
          r1 = dropWhile isxdigit r;
          pt = (r1 \<noteq> [] \<and> hd r1 = CHR ''.'');
          fr = (if pt then takeWhile isxdigit (tl r1) else []);
          r2 = (if pt then dropWhile isxdigit (tl r1) else r1)
      in scaled f s (digits_value 16 (ip @ fr)) 2
           (exponent_part CHR ''p'' r2 - 4 * int (length fr)))"

definition hex_start :: "string \<Rightarrow> bool" where
  "hex_start r =
     (case r of
        [] \<Rightarrow> False
      | k # r1 \<Rightarrow> isxdigit k \<or> (k = CHR ''.'' \<and> r1 \<noteq> [] \<and> isxdigit (hd r1)))"

text \<open>
  The conversion of the initial part of a string: white space is skipped, then an
  optional sign, then an infinity, a NaN, a hexadecimal or a decimal number. The rest of
  the string is ignored (main passes no end pointer), and a string with no number in it
  gives zero.
\<close>

definition strtox :: "format \<Rightarrow> string \<Rightarrow> fp" where
  "strtox f str =
     (let r0 = dropWhile isspace str;
          sg = (r0 \<noteq> [] \<and> (hd r0 = CHR ''-'' \<or> hd r0 = CHR ''+''));
          s = (r0 \<noteq> [] \<and> hd r0 = CHR ''-'');
          r = (if sg then tl r0 else r0)
      in if map tolower (take 3 r) = ''inf'' then Infinity s
         else if map tolower (take 3 r) = ''nan'' then NaN
         else if map tolower (take 2 r) = ''0x'' \<and> hex_start (drop 2 r)
           then strto_hex f s (drop 2 r)
         else strto_dec f s r)"

definition strtof :: "string \<Rightarrow> c_float" where
  "strtof = strtox binary32"

text \<open>
  A floating constant of the program text, \<^verbatim>\<open>0.1f\<close> or \<^verbatim>\<open>3.25\<close>, is the value of its
  type nearest to the decimal number written.
\<close>

definition float_const :: "string \<Rightarrow> c_float" where
  "float_const = strtox binary32"

definition double_const :: "string \<Rightarrow> c_double" where
  "double_const = strtox binary64"

subsection \<open>getopt_long\<close>

text \<open>
  One call of \<^verbatim>\<open>getopt_long\<close> returns the character of the next option and leaves its
  argument in \<^verbatim>\<open>optarg\<close>; the loop of main calls it until it returns \<open>-1\<close>. The model
  gives the whole sequence of these results at once, each a pair of the character and
  \<^verbatim>\<open>optarg\<close>, in the order of the command line. An option that is unknown, ambiguous,
  lacks its argument or has one it does not take is returned as \<^verbatim>\<open>?\<close>. The message
  that the library itself writes to standard error in that case is not modelled.

  A long option is an entry (name, takes an argument, character). The name given on the
  command line may be any prefix that fits one entry only, and may carry the argument
  after \<^verbatim>\<open>=\<close>. Words that are not options are skipped, and \<^verbatim>\<open>--\<close> ends the options.
\<close>

type_synonym long_option = "string \<times> bool \<times> char"

fun takes_arg :: "string \<Rightarrow> char \<Rightarrow> bool option" where
  "takes_arg [] k = None"
| "takes_arg (k' # ks) k =
     (if k' = k then Some (ks \<noteq> [] \<and> hd ks = CHR '':'') else takes_arg ks k)"

definition long_match :: "long_option list \<Rightarrow> string \<Rightarrow> (bool \<times> char) option" where
  "long_match tb nm =
     (case filter (\<lambda>e. fst e = nm) tb of
        e # es \<Rightarrow> Some (snd e)
      | [] \<Rightarrow>
          (case filter (\<lambda>e. take (length nm) (fst e) = nm) tb of
             [e] \<Rightarrow> Some (snd e)
           | _ \<Rightarrow> None))"

text \<open>
  \<open>getopt_scan os tb cl rest\<close>: \<open>cl\<close> is what is left of the word of short options being
  read, \<open>rest\<close> the words after it.
\<close>

fun getopt_scan :: "string \<Rightarrow> long_option list \<Rightarrow> string \<Rightarrow> string list \<Rightarrow> (char \<times> string) list" where
  "getopt_scan os tb (k # cl) rest =
     (if k = CHR '':'' then (CHR ''?'', []) # getopt_scan os tb cl rest
      else case takes_arg os k of
        None \<Rightarrow> (CHR ''?'', []) # getopt_scan os tb cl rest
      | Some False \<Rightarrow> (k, []) # getopt_scan os tb cl rest
      | Some True \<Rightarrow>
          if cl \<noteq> [] then (k, cl) # getopt_scan os tb [] rest
          else (case rest of
                  [] \<Rightarrow> [(CHR ''?'', [])]
                | w # rest' \<Rightarrow> (k, w) # getopt_scan os tb [] rest'))"
| "getopt_scan os tb [] [] = []"
| "getopt_scan os tb [] (w # rest) =
     (if w = ''--'' then []
      else if take 2 w = ''--'' then
        (let nm = takeWhile (\<lambda>k. k \<noteq> CHR ''='') (drop 2 w);
             eq = (CHR ''='' \<in> set w);
             v = drop (length nm + 3) w
         in case long_match tb nm of
              None \<Rightarrow> (CHR ''?'', []) # getopt_scan os tb [] rest
            | Some (need, k) \<Rightarrow>
                if eq then (if need then (k, v) else (CHR ''?'', [])) # getopt_scan os tb [] rest
                else if need then
                  (case rest of
                     [] \<Rightarrow> [(CHR ''?'', [])]
                   | w' # rest' \<Rightarrow> (k, w') # getopt_scan os tb [] rest')
                else (k, []) # getopt_scan os tb [] rest)
      else if take 1 w = ''-'' \<and> w \<noteq> ''-'' then getopt_scan os tb (tl w) rest
      else getopt_scan os tb [] rest)"

definition getopt_long :: "string list \<Rightarrow> string \<Rightarrow> long_option list \<Rightarrow> (char \<times> string) list" where
  "getopt_long args os tb = getopt_scan os tb [] args"

section \<open>main\<close>

text \<open>
  What main does to its surroundings: the text written to standard output and to
  standard error, the exit status, and the calls of the dynamic loader and of the three
  functions, in order. \<open>Dlopen n ok\<close> is a call of \<^verbatim>\<open>dlopen\<close> for the file \<open>n\<close>, and
  \<open>ok\<close> tells whether it gave a handle.
\<close>

datatype event =
    Dlopen string bool
  | Dlsym string
  | Dlclose
  | Call string

record outcome =
  exit_status :: int
  stdout :: string
  stderr :: string
  trace :: "event list"

text \<open>
  A shared library offers each of the three functions or not (\<^verbatim>\<open>dlsym\<close> gives a null
  pointer for a symbol the library lacks). A function of a library has the type of the
  built-in one; what it computes is up to the library. \<open>None\<close> from it means that the
  call does not come back to main.
\<close>

record library =
  sym_sum_scalars :: "(c_float \<Rightarrow> c_float \<Rightarrow> c_float \<Rightarrow> c_float option) option"
  sym_sum_vectors :: "(fmem \<Rightarrow> addr \<Rightarrow> addr \<Rightarrow> addr \<Rightarrow> nat \<Rightarrow> fmem option) option"
  sym_sum_structs :: "(smem \<Rightarrow> addr \<Rightarrow> addr \<Rightarrow> (MyStruct \<times> smem) option) option"

text \<open>
  The surroundings: which file names \<^verbatim>\<open>dlopen\<close> can open, and the text that
  \<^verbatim>\<open>dlerror\<close> gives after a failure.
\<close>

record environment =
  dlopen :: "string \<Rightarrow> library option"
  dlerror :: string

definition print_usage :: "string \<Rightarrow> string" where
  "print_usage prog =
     ''Usage: '' @ prog @
     '' [--mode scalar|vector|struct] [--use-lib] [--a <float> --b <float> --c <float>]'' @ nl"

definition optstring :: string where
  "optstring = ''m:ua:b:c:h''"

definition long_options :: "long_option list" where
  "long_options =
     [(''mode'', True, CHR ''m''),
      (''use-lib'', False, CHR ''u''),
      (''a'', True, CHR ''a''),
      (''b'', True, CHR ''b''),
      (''c'', True, CHR ''c''),
      (''help'', False, CHR ''h'')]"

text \<open>
  The option loop. It ends with the values of the local variables \<^verbatim>\<open>mode\<close>,
  \<^verbatim>\<open>use_lib\<close>, \<^verbatim>\<open>a\<close>, \<^verbatim>\<open>b\<close>, \<^verbatim>\<open>c\<close>, or leaves main at once with a status after
  printing the usage line.
\<close>

datatype parsed = Exit int | Run string bool c_float c_float c_float

fun parse_options ::
  "string \<Rightarrow> bool \<Rightarrow> c_float \<Rightarrow> c_float \<Rightarrow> c_float \<Rightarrow> (char \<times> string) list \<Rightarrow> parsed" where
  "parse_options mode use_lib a b c [] = Run mode use_lib a b c"
| "parse_options mode use_lib a b c ((opt, optarg) # rest) =
     (if opt = CHR ''m'' then parse_options optarg use_lib a b c rest
      else if opt = CHR ''u'' then parse_options mode True a b c rest
      else if opt = CHR ''a'' then parse_options mode use_lib (strtof optarg) b c rest
      else if opt = CHR ''b'' then parse_options mode use_lib a (strtof optarg) c rest
      else if opt = CHR ''c'' then parse_options mode use_lib a b (strtof optarg) rest
      else if opt = CHR ''h'' then Exit 0
      else Exit 1)"

text \<open>
  Loading the library: the macOS name first, then the Linux name. The result is the
  handle, if any, and the calls made.
\<close>

definition open_library :: "environment \<Rightarrow> library option \<times> event list" where
  "open_library env =
     (case dlopen env ''./libbinary_playground.dylib'' of
        Some lib \<Rightarrow> (Some lib, [Dlopen ''./libbinary_playground.dylib'' True])
      | None \<Rightarrow>
          (dlopen env ''./libbinary_playground.so'',
           [Dlopen ''./libbinary_playground.dylib'' False,
            Dlopen ''./libbinary_playground.so''
              (dlopen env ''./libbinary_playground.so'' \<noteq> None)]))"

text \<open>The three arrays of the vector mode, one after the other in the frame of main.\<close>

definition vector_frame :: fmem where
  "vector_frame =
     [0 \<mapsto> float_const ''1.0'', 1 \<mapsto> float_const ''2.0'', 2 \<mapsto> float_const ''3.0'',
      3 \<mapsto> float_const ''0.5'', 4 \<mapsto> float_const ''0.5'', 5 \<mapsto> float_const ''0.5'',
      6 \<mapsto> float_const ''0.1'', 7 \<mapsto> float_const ''0.2'', 8 \<mapsto> float_const ''0.3'']"

text \<open>The loop that prints \<^verbatim>\<open>v1\<close>, appending to the text printed so far.\<close>

function print_vector_from :: "nat \<Rightarrow> fmem \<Rightarrow> addr \<Rightarrow> nat \<Rightarrow> string \<Rightarrow> string option" where
  "print_vector_from i h v1 len txt =
     (if i < len then
        (case h (v1 + i) of
           None \<Rightarrow> None
         | Some f \<Rightarrow>
             print_vector_from (Suc i) h v1 len
               (txt @ fmt_f (double_of_float f) @ (if i + 1 < len then '', '' else [])))
      else Some txt)"
  by pat_completeness auto
termination
  by (relation "measure (\<lambda>(i, h, v1, len, txt). len - i)") auto

declare print_vector_from.simps [simp del]

text \<open>The two records of the struct mode, in the frame of main.\<close>

definition struct_frame :: smem where
  "struct_frame =
     [0 \<mapsto> \<lparr>x = 1, y = float_const ''2.5'', z = double_const ''3.25''\<rparr>,
      1 \<mapsto> \<lparr>x = 4, y = float_const ''1.5'', z = double_const ''0.75''\<rparr>]"

text \<open>The end of main that all three modes share: release the handle, return 0.\<close>

definition finish :: "library option \<Rightarrow> event list \<Rightarrow> string \<Rightarrow> outcome" where
  "finish handle tr txt =
     \<lparr>exit_status = 0, stdout = txt, stderr = [],
      trace = tr @ (if handle \<noteq> None then [Dlclose] else [])\<rparr>"

text \<open>
  The dispatch by mode, with the handle and the three function pointers that
  \<^verbatim>\<open>dlsym\<close> gave (all absent when no library was asked for). \<open>tr\<close> are the calls made
  so far.
\<close>

definition dispatch ::
  "string \<Rightarrow> string \<Rightarrow> bool \<Rightarrow> c_float \<Rightarrow> c_float \<Rightarrow> c_float \<Rightarrow> library option \<Rightarrow>
   (c_float \<Rightarrow> c_float \<Rightarrow> c_float \<Rightarrow> c_float option) option \<Rightarrow>
   (fmem \<Rightarrow> addr \<Rightarrow> addr \<Rightarrow> addr \<Rightarrow> nat \<Rightarrow> fmem option) option \<Rightarrow>
   (smem \<Rightarrow> addr \<Rightarrow> addr \<Rightarrow> (MyStruct \<times> smem) option) option \<Rightarrow>
   event list \<Rightarrow> outcome option" where
  "dispatch prog mode use_lib a b c handle lib_sum_scalars lib_sum_vectors lib_sum_structs tr =
     (if mode = ''scalar'' then
        (case (if use_lib \<and> lib_sum_scalars \<noteq> None then the lib_sum_scalars a b c
               else Some (sum_scalars a b c)) of
           None \<Rightarrow> None
         | Some res \<Rightarrow>
             Some (finish handle (tr @ [Call ''sum_scalars''])
               (''sum_scalars('' @ fmt_f (double_of_float a) @ '', '' @
                fmt_f (double_of_float b) @ '', '' @ fmt_f (double_of_float c) @ '') = '' @
                fmt_f (double_of_float res) @ nl)))
      else if mode = ''vector'' then
        (case (if use_lib \<and> lib_sum_vectors \<noteq> None then the lib_sum_vectors vector_frame 0 3 6 3
               else sum_vectors vector_frame 0 3 6 3) of
           None \<Rightarrow> None
         | Some h \<Rightarrow>
             (case print_vector_from 0 h 0 3 ''sum_vectors result: ['' of
                None \<Rightarrow> None
              | Some txt \<Rightarrow> Some (finish handle (tr @ [Call ''sum_vectors'']) (txt @ '']'' @ nl))))
      else if mode = ''struct'' then
        (case (if use_lib \<and> lib_sum_structs \<noteq> None then the lib_sum_structs struct_frame 0 1
               else sum_structs struct_frame 0 1) of
           None \<Rightarrow> None
         | Some (out, h) \<Rightarrow>
             Some (finish handle (tr @ [Call ''sum_structs''])
               (''sum_structs: x='' @ fmt_d (x out) @ '', y='' @ fmt_f (double_of_float (y out)) @
                '', z='' @ fmt_f (z out) @ nl)))
      else
        Some \<lparr>exit_status = 1, stdout = print_usage prog,
              stderr = ''Unknown mode '' @ [CHR 0x27] @ mode @ [CHR 0x27] @ nl,
              trace = tr @ (if handle \<noteq> None then [Dlclose] else [])\<rparr>)"

text \<open>
  main after the option loop, with the values of its local variables: load the library
  if asked to, then dispatch. \<open>None\<close> is a run that a function of the library did not
  let come back.
\<close>

definition load_and_dispatch ::
  "environment \<Rightarrow> string \<Rightarrow> string \<Rightarrow> bool \<Rightarrow> c_float \<Rightarrow> c_float \<Rightarrow> c_float \<Rightarrow> outcome option" where
  "load_and_dispatch env prog mode use_lib a b c =
     (if use_lib then
        (case open_library env of
           (None, tr) \<Rightarrow>
             Some \<lparr>exit_status = 1, stdout = [],
                   stderr = ''Failed to open dynamic library: '' @ dlerror env @ nl,
                   trace = tr\<rparr>
         | (Some lib, tr) \<Rightarrow>
             dispatch prog mode use_lib a b c (Some lib)
               (sym_sum_scalars lib) (sym_sum_vectors lib) (sym_sum_structs lib)
               (tr @ [Dlsym ''sum_scalars'', Dlsym ''sum_vectors'', Dlsym ''sum_structs'']))
      else dispatch prog mode use_lib a b c None None None None [])"

text \<open>main on the sequence of options that \<^verbatim>\<open>getopt_long\<close> returns.\<close>

definition run_options :: "environment \<Rightarrow> string \<Rightarrow> (char \<times> string) list \<Rightarrow> outcome option" where
  "run_options env prog opts =
     (case parse_options ''scalar'' False (float_const ''1.0'') (float_const ''2.0'')
             (float_const ''3.0'') opts of
        Exit n \<Rightarrow> Some \<lparr>exit_status = n, stdout = print_usage prog, stderr = [], trace = []\<rparr>
      | Run mode use_lib a b c \<Rightarrow> load_and_dispatch env prog mode use_lib a b c)"

text \<open>main, for the program name \<^verbatim>\<open>argv[0]\<close> and the words after it.\<close>

definition main :: "environment \<Rightarrow> string \<Rightarrow> string list \<Rightarrow> outcome option" where
  "main env prog args = run_options env prog (getopt_long args optstring long_options)"

text \<open>Surroundings with no library to load.\<close>

definition no_library :: environment where
  "no_library = \<lparr>dlopen = (\<lambda>n. None), dlerror = ''image not found''\<rparr>"

text \<open>
  The library that the build makes of this very source (\<^verbatim>\<open>make lib\<close>), found under its
  Linux name.
\<close>

definition own_library :: library where
  "own_library =
     \<lparr>sym_sum_scalars = Some (\<lambda>a b c. Some (sum_scalars a b c)),
      sym_sum_vectors = Some sum_vectors,
      sym_sum_structs = Some sum_structs\<rparr>"

definition linux_library :: environment where
  "linux_library =
     \<lparr>dlopen = (\<lambda>n. if n = ''./libbinary_playground.so'' then Some own_library else None),
      dlerror = []\<rparr>"

section \<open>Notions of the specification\<close>

text \<open>
  The argument of the last occurrence of the option \<open>k\<close> in a sequence of options, if it
  occurs at all.
\<close>

definition last_occurrence :: "char \<Rightarrow> (char \<times> string) list \<Rightarrow> string option" where
  "last_occurrence k opts =
     (case filter (\<lambda>e. fst e = k) opts of [] \<Rightarrow> None | e # es \<Rightarrow> Some (snd (last (e # es))))"

text \<open>The options of a sequence other than \<^verbatim>\<open>--a\<close>, \<^verbatim>\<open>--b\<close>, \<^verbatim>\<open>--c\<close>.\<close>

definition without_abc :: "(char \<times> string) list \<Rightarrow> (char \<times> string) list" where
  "without_abc opts = filter (\<lambda>e. fst e \<notin> set ''abc'') opts"

text \<open>A call of the loader that gave a handle.\<close>

fun acquired :: "event \<Rightarrow> bool" where
  "acquired (Dlopen n ok) = ok"
| "acquired (Dlsym n) = False"
| "acquired Dlclose = False"
| "acquired (Call n) = False"

section \<open>Properties of the floating-point model\<close>

text \<open>
  Whatever its operands, a sum is a value of the format: rounding keeps the significand
  below \<open>2^prec\<close> and the exponent within the bounds, or gives an infinity.
\<close>

lemma bitlen_eval: "bitlen 0 = 0" "n \<noteq> 0 \<Longrightarrow> bitlen n = Suc (bitlen (n div 2))"
  by (simp_all add: bitlen.simps)

lemma bitlen_bounds: "0 < n \<Longrightarrow> 2 ^ (bitlen n - 1) \<le> n \<and> n < 2 ^ bitlen n"
proof (induction n rule: bitlen.induct)
  case (1 n)
  show ?case
  proof (cases "n div 2 = 0")
    case True
    with "1.prems" have "n = 1" by presburger
    then show ?thesis by (simp add: bitlen_eval)
  next
    case False
    with "1.IH" "1.prems" have
      ih: "2 ^ (bitlen (n div 2) - 1) \<le> n div 2" "n div 2 < 2 ^ bitlen (n div 2)" by simp_all
    from False have b: "bitlen (n div 2) \<noteq> 0" by (simp add: bitlen_eval)
    from "1.prems" have e: "bitlen n = Suc (bitlen (n div 2))" by (simp add: bitlen_eval)
    from b have "(2::nat) ^ bitlen (n div 2) = 2 * 2 ^ (bitlen (n div 2) - 1)"
      by (cases "bitlen (n div 2)") simp_all
    with ih(1) have "2 ^ bitlen (n div 2) \<le> n" by presburger
    moreover from ih(2) have "n < 2 * 2 ^ bitlen (n div 2)" by presburger
    ultimately show ?thesis by (simp add: e)
  qed
qed

lemma round_half_even_le: "0 < d \<Longrightarrow> n < d * k \<Longrightarrow> round_half_even n d \<le> k"
proof -
  assume d: "0 < d" and n: "n < d * k"
  then have "n div d < k" by (simp add: less_mult_imp_div_less mult.commute)
  then show ?thesis by (simp add: round_half_even_def Let_def)
qed

lemma ratio_less:
  assumes n: "0 < n" and d: "0 < d"
  defines "k \<equiv> int (bitlen n) - int (bitlen d)"
  defines "lg \<equiv> (if d * 2 ^ nat k \<le> n * 2 ^ nat (- k) then k else k - 1)"
  shows "real n / real d < 2 powi (lg + 1)"
proof -
  from bitlen_bounds [OF n] bitlen_bounds [OF d] have
    bn: "n < 2 ^ bitlen n" and bd: "2 ^ (bitlen d - 1) \<le> d" by simp_all
  from d have bd0: "0 < bitlen d" by (simp add: bitlen_eval)
  have "real n < 2 ^ bitlen n" using bn by (metis of_nat_less_iff of_nat_numeral of_nat_power)
  then have 1: "real n < 2 powi int (bitlen n)" by simp
  have "2 ^ (bitlen d - 1) \<le> real d" using bd by (metis of_nat_le_iff of_nat_numeral of_nat_power)
  then have 2: "2 powi (int (bitlen d) - 1) \<le> real d"
    using bd0 by (simp add: power_int_def nat_diff_distrib')
  have up: "real n / real d < 2 powi (k + 1)"
  proof -
    have "real n / real d < 2 powi int (bitlen n) / real d"
      using 1 d by (simp add: divide_strict_right_mono)
    also have "\<dots> \<le> 2 powi int (bitlen n) / 2 powi (int (bitlen d) - 1)"
      using 2 by (intro divide_left_mono) (simp_all add: mult_pos_pos d)
    also have "\<dots> = 2 powi (int (bitlen n) - (int (bitlen d) - 1))"
      by (subst power_int_diff) simp_all
    also have "int (bitlen n) - (int (bitlen d) - 1) = k + 1"
      by (simp add: k_def)
    finally show ?thesis .
  qed
  show ?thesis
  proof (cases "d * 2 ^ nat k \<le> n * 2 ^ nat (- k)")
    case True
    then show ?thesis using up by (simp add: lg_def)
  next
    case False
    then have "n * 2 ^ nat (- k) < d * 2 ^ nat k" by simp
    then have "real (n * 2 ^ nat (- k)) < real (d * 2 ^ nat k)" by (simp only: of_nat_less_iff)
    then have "real n * 2 ^ nat (- k) < real d * 2 ^ nat k" by simp
    then have "real n / real d < 2 powi k"
      using d by (cases "0 \<le> k") (simp_all add: power_int_def field_simps)
    with False show ?thesis by (simp add: lg_def)
  qed
qed

lemma round_fp_is_value:
  assumes d: "0 < d" and p: "0 < prec f" and q: "qmin f \<le> qmax f"
  shows "is_value f (round_fp f s n d)"
proof (cases "n = 0")
  case True
  with q show ?thesis by (simp add: round_fp_def is_value_def)
next
  case False
  then have n: "0 < n" by simp
  define k where "k = int (bitlen n) - int (bitlen d)"
  define lg where "lg = (if d * 2 ^ nat k \<le> n * 2 ^ nat (- k) then k else k - 1)"
  define e where "e = max (qmin f) (lg - (int (prec f) - 1))"
  define m where "m = round_half_even (n * 2 ^ nat (- e)) (d * 2 ^ nat e)"
  have r: "real n / real d < 2 powi (lg + 1)"
    using ratio_less [OF n d] unfolding lg_def k_def .
  have le: "lg + 1 - e \<le> int (prec f)" by (simp add: e_def)
  have "real (n * 2 ^ nat (- e)) / real (d * 2 ^ nat e) = real n / real d * 2 powi (- e)"
    by (cases "0 \<le> e") (simp_all add: power_int_def field_simps)
  also have "\<dots> < 2 powi (lg + 1) * 2 powi (- e)"
    using r by (intro mult_strict_right_mono) simp_all
  also have "\<dots> = 2 powi (lg + 1 - e)"
    by (simp add: power_int_add [symmetric] del: power_int_minus)
  also have "\<dots> \<le> 2 powi int (prec f)"
    using le by (intro power_int_increasing) simp_all
  finally have "real (n * 2 ^ nat (- e)) < real (d * 2 ^ nat e) * 2 ^ prec f"
    using d by (simp add: field_simps)
  then have "real (n * 2 ^ nat (- e)) < real (d * 2 ^ nat e * 2 ^ prec f)" by simp
  then have "n * 2 ^ nat (- e) < d * 2 ^ nat e * 2 ^ prec f" by (simp only: of_nat_less_iff)
  with d have mle: "m \<le> 2 ^ prec f"
    unfolding m_def by (intro round_half_even_le) simp_all
  have qe: "qmin f \<le> e" by (simp add: e_def)
  from p have pw: "(2::nat) ^ (prec f - 1) < 2 ^ prec f" by simp
  have eq: "round_fp f s n d =
      (if qmax f < (if m = 2 ^ prec f then e + 1 else e) then Infinity s
       else Finite s (if m = 2 ^ prec f then 2 ^ (prec f - 1) else m)
              (if m = 2 ^ prec f then e + 1 else e))"
    unfolding round_fp_def Let_def m_def e_def lg_def k_def using False by simp
  show ?thesis
  proof (cases "m = 2 ^ prec f")
    case True
    with qe pw show ?thesis by (simp add: eq is_value_def)
  next
    case False
    with mle have "m < 2 ^ prec f" by simp
    with False qe show ?thesis by (simp add: eq is_value_def)
  qed
qed

lemma fadd_is_value:
  assumes p: "0 < prec f" and q: "qmin f \<le> qmax f"
  shows "is_value f (fadd f u v)"
proof (cases u; cases v)
  fix s m e t n g
  assume "u = Finite s m e" "v = Finite t n g"
  then have "fadd f u v = Finite (s \<and> t) 0 (qmin f) \<or>
      (\<exists>sg k. fadd f u v = round_fp f sg k (2 ^ nat (- min e g)))"
    by (auto simp: Let_def)
  then show ?thesis
    using round_fp_is_value [OF _ p q] q by (auto simp: is_value_def)
qed (simp_all add: is_value_def)

lemma round_half_even_error:
  assumes d: "0 < d"
  shows "2 * \<bar>int (round_half_even n d) * int d - int n\<bar> \<le> int d"
proof -
  define q where "q = n div d"
  define r where "r = n mod d"
  have n: "int n = int q * int d + int r"
    unfolding q_def r_def by (metis div_mult_mod_eq of_nat_add of_nat_mult)
  have r: "r < d" unfolding r_def using d by simp
  consider "2 * r < d" | "d < 2 * r" | "2 * r = d" by linarith
  then show ?thesis
  proof cases
    case 1
    then have "round_half_even n d = q" by (simp add: round_half_even_def Let_def q_def r_def)
    with 1 n show ?thesis by simp
  next
    case 2
    then have "round_half_even n d = q + 1" by (simp add: round_half_even_def Let_def q_def r_def)
    with 2 n r show ?thesis by (simp add: algebra_simps)
  next
    case 3
    then have "round_half_even n d = q \<or> round_half_even n d = q + 1"
      by (simp add: round_half_even_def Let_def q_def r_def)
    with 3 n r show ?thesis by (auto simp: algebra_simps)
  qed
qed

lemma round_half_even_tie: "2 * (n mod d) = d \<Longrightarrow> even (round_half_even n d)"
  by (simp add: round_half_even_def Let_def)

lemma round_half_even_ge: "n div d \<le> round_half_even n d"
  by (simp add: round_half_even_def Let_def)

lemma ratio_ge:
  assumes n: "0 < n" and d: "0 < d"
  defines "k \<equiv> int (bitlen n) - int (bitlen d)"
  defines "lg \<equiv> (if d * 2 ^ nat k \<le> n * 2 ^ nat (- k) then k else k - 1)"
  shows "2 powi lg \<le> real n / real d"
proof -
  from bitlen_bounds [OF n] bitlen_bounds [OF d] have
    bn: "2 ^ (bitlen n - 1) \<le> n" and bd: "d < 2 ^ bitlen d" by simp_all
  from n have bn0: "0 < bitlen n" by (simp add: bitlen_eval)
  have "2 ^ (bitlen n - 1) \<le> real n" using bn by (metis of_nat_le_iff of_nat_numeral of_nat_power)
  then have 1: "2 powi (int (bitlen n) - 1) \<le> real n"
    using bn0 by (simp add: power_int_def nat_diff_distrib')
  have "real d < 2 ^ bitlen d" using bd by (metis of_nat_less_iff of_nat_numeral of_nat_power)
  then have 2: "real d \<le> 2 powi int (bitlen d)" by simp
  have low: "2 powi (k - 1) \<le> real n / real d"
  proof -
    have "(2::real) powi (k - 1) = 2 powi (int (bitlen n) - 1 - int (bitlen d))"
      by (simp add: k_def algebra_simps)
    also have "\<dots> = 2 powi (int (bitlen n) - 1) / 2 powi int (bitlen d)"
      by (subst power_int_diff) simp_all
    also have "\<dots> \<le> real n / 2 powi int (bitlen d)"
      using 1 by (intro divide_right_mono) simp_all
    also have "\<dots> \<le> real n / real d"
      using 2 d by (intro divide_left_mono) (simp_all add: mult_pos_pos)
    finally show ?thesis .
  qed
  show ?thesis
  proof (cases "d * 2 ^ nat k \<le> n * 2 ^ nat (- k)")
    case False
    then show ?thesis using low by (simp add: lg_def)
  next
    case True
    then have "real (d * 2 ^ nat k) \<le> real (n * 2 ^ nat (- k))" by (simp only: of_nat_le_iff)
    then have "real d * 2 ^ nat k \<le> real n * 2 ^ nat (- k)" by simp
    then have "2 powi k \<le> real n / real d"
      using d by (cases "0 \<le> k") (simp_all add: power_int_def field_simps)
    with True show ?thesis by (simp add: lg_def)
  qed
qed

lemma scaled_ratio:
  "real (n * 2 ^ nat (- e)) / real (d * 2 ^ nat e) = real n / real d * 2 powi (- e)"
  by (cases "0 \<le> e") (simp_all add: power_int_def field_simps)

lemma round_fp_unfold:
  assumes "n \<noteq> 0"
    and k_def: "k = int (bitlen n) - int (bitlen d)"
    and lg_def: "lg = (if d * 2 ^ nat k \<le> n * 2 ^ nat (- k) then k else k - 1)"
    and e_def: "e = max (qmin f) (lg - (int (prec f) - 1))"
    and m_def: "m = round_half_even (n * 2 ^ nat (- e)) (d * 2 ^ nat e)"
  shows "round_fp f s n d =
      (if qmax f < (if m = 2 ^ prec f then e + 1 else e) then Infinity s
       else Finite s (if m = 2 ^ prec f then 2 ^ (prec f - 1) else m)
              (if m = 2 ^ prec f then e + 1 else e))"
  unfolding round_fp_def Let_def m_def e_def lg_def k_def using assms(1) by simp

lemma round_error_real:
  assumes d: "0 < d"
    and m_def: "m = round_half_even (n * 2 ^ nat (- e)) (d * 2 ^ nat e)"
  shows "\<bar>real m * 2 powi e - real n / real d\<bar> \<le> 2 powi e / 2"
proof -
  let ?N = "n * 2 ^ nat (- e)" and ?D = "d * 2 ^ nat e"
  from d have D: "0 < ?D" by simp
  from round_half_even_error [OF D, of ?N]
  have "2 * \<bar>int m * int ?D - int ?N\<bar> \<le> int ?D" by (simp add: m_def)
  then have "real_of_int (2 * \<bar>int m * int ?D - int ?N\<bar>) \<le> real_of_int (int ?D)"
    by (simp only: of_int_le_iff)
  then have "2 * \<bar>real m * real ?D - real ?N\<bar> \<le> real ?D" by simp
  then have "2 * \<bar>real m * real ?D - real ?N\<bar> / real ?D \<le> 1"
    using D by (simp add: field_simps)
  moreover have "\<bar>real m * real ?D - real ?N\<bar> / real ?D = \<bar>real m - real ?N / real ?D\<bar>"
  proof -
    have "real m - real ?N / real ?D = (real m * real ?D - real ?N) / real ?D"
      using D by (simp add: field_simps)
    then show ?thesis using D by (simp add: abs_divide del: of_nat_mult)
  qed
  ultimately have "2 * \<bar>real m - real ?N / real ?D\<bar> \<le> 1" by simp
  then have "2 * \<bar>real m - real n / real d * 2 powi (- e)\<bar> \<le> 1"
    by (simp only: scaled_ratio)
  then have h: "\<bar>real m - real n / real d * 2 powi (- e)\<bar> \<le> 1 / 2"
    by simp
  have "real m * 2 powi e - real n / real d = (real m - real n / real d * 2 powi (- e)) * 2 powi e"
    by (simp add: algebra_simps power_int_minus)
  then have "\<bar>real m * 2 powi e - real n / real d\<bar> = \<bar>real m - real n / real d * 2 powi (- e)\<bar> * 2 powi e"
    by (simp add: abs_mult)
  also have "\<dots> \<le> 1 / 2 * 2 powi e"
    using h by (intro mult_right_mono) simp_all
  finally show ?thesis by simp
qed

lemma round_normal:
  assumes n: "0 < n" and d: "0 < d" and p: "0 < prec f"
    and k_def: "k = int (bitlen n) - int (bitlen d)"
    and lg_def: "lg = (if d * 2 ^ nat k \<le> n * 2 ^ nat (- k) then k else k - 1)"
    and e: "e = lg - (int (prec f) - 1)"
  shows "2 ^ (prec f - 1) \<le> round_half_even (n * 2 ^ nat (- e)) (d * 2 ^ nat e)"
proof -
  let ?N = "n * 2 ^ nat (- e)" and ?D = "d * 2 ^ nat e"
  from d have D: "0 < ?D" by simp
  have r: "2 powi lg \<le> real n / real d"
    using ratio_ge [OF n d] unfolding lg_def k_def .
  have "(2::real) ^ (prec f - 1) = 2 powi (int (prec f) - 1)"
    using p by (simp add: power_int_def nat_diff_distrib')
  also have "\<dots> = 2 powi lg * 2 powi (- e)"
    by (simp add: e power_int_add [symmetric] del: power_int_minus)
  also have "\<dots> \<le> real n / real d * 2 powi (- e)"
    using r by (intro mult_right_mono) simp_all
  also have "\<dots> = real ?N / real ?D"
    by (simp only: scaled_ratio)
  finally have "2 ^ (prec f - 1) * real ?D \<le> real ?N"
    using D by (simp add: field_simps del: of_nat_mult of_nat_power)
  then have "real (2 ^ (prec f - 1) * ?D) \<le> real ?N"
    by (simp only: of_nat_mult of_nat_power of_nat_numeral)
  then have "2 ^ (prec f - 1) * ?D \<le> ?N" by (simp only: of_nat_le_iff)
  then have "2 ^ (prec f - 1) \<le> ?N div ?D"
    using D by (simp only: less_eq_div_iff_mult_less_eq)
  also have "\<dots> \<le> round_half_even ?N ?D" by (rule round_half_even_ge)
  finally show ?thesis .
qed

text \<open>
  Rounding is correct: a finite result has the sign asked for, lies within half a unit
  in the last place of the exact quotient, and its significand is normalised unless its
  exponent is the least one. An infinity is the result only from half a unit in the
  last place above the greatest finite value on.
\<close>

lemma round_fp_finite:
  assumes d: "0 < d" and p: "0 < prec f" and r: "round_fp f s n d = Finite t m e"
  shows "t = s \<and> \<bar>real m * 2 powi e - real n / real d\<bar> \<le> 2 powi e / 2 \<and>
     (n = 0 \<or> 2 ^ (prec f - 1) \<le> m \<or> e = qmin f)"
proof (cases "n = 0")
  case True
  with r show ?thesis by (simp add: round_fp_def)
next
  case False
  define k where "k = int (bitlen n) - int (bitlen d)"
  define lg where "lg = (if d * 2 ^ nat k \<le> n * 2 ^ nat (- k) then k else k - 1)"
  define e0 where "e0 = max (qmin f) (lg - (int (prec f) - 1))"
  define m0 where "m0 = round_half_even (n * 2 ^ nat (- e0)) (d * 2 ^ nat e0)"
  note u = round_fp_unfold [OF False k_def lg_def e0_def m0_def, of s]
  have err: "\<bar>real m0 * 2 powi e0 - real n / real d\<bar> \<le> 2 powi e0 / 2"
    using d m0_def by (rule round_error_real)
  show ?thesis
  proof (cases "m0 = 2 ^ prec f")
    case True
    with r u have v: "t = s" "m = 2 ^ (prec f - 1)" "e = e0 + 1"
      by (auto split: if_splits)
    have "real m * 2 powi e = 2 ^ (prec f - 1) * (2 powi e0 * 2)"
      by (simp add: v power_int_add)
    also have "\<dots> = 2 ^ Suc (prec f - 1) * 2 powi e0" by simp
    also have "\<dots> = real m0 * 2 powi e0" using p True by simp
    finally have "\<bar>real m * 2 powi e - real n / real d\<bar> \<le> 2 powi e0 / 2"
      using err by simp
    also have "\<dots> \<le> 2 powi e / 2"
      by (simp add: v power_int_add)
    finally show ?thesis using v by simp
  next
    case F: False
    with r u have v: "t = s" "m = m0" "e = e0"
      by (auto split: if_splits)
    have "2 ^ (prec f - 1) \<le> m \<or> e = qmin f"
    proof (cases "e0 = qmin f")
      case True
      with v show ?thesis by simp
    next
      case False
      then have "e0 = lg - (int (prec f) - 1)" by (simp add: e0_def max_def split: if_splits)
      from round_normal [OF _ d p k_def lg_def this] \<open>n \<noteq> 0\<close>
      show ?thesis by (simp add: v m0_def)
    qed
    with err v show ?thesis by simp
  qed
qed

lemma round_fp_overflow:
  assumes d: "0 < d" and q: "qmin f \<le> qmax f" and r: "round_fp f s n d = Infinity t"
  shows "t = s \<and> (2 ^ prec f - 1 / 2) * 2 powi qmax f \<le> real n / real d"
proof -
  have n: "n \<noteq> 0"
  proof
    assume "n = 0"
    with r show False by (simp add: round_fp_def)
  qed
  define k where "k = int (bitlen n) - int (bitlen d)"
  define lg where "lg = (if d * 2 ^ nat k \<le> n * 2 ^ nat (- k) then k else k - 1)"
  define e0 where "e0 = max (qmin f) (lg - (int (prec f) - 1))"
  define m0 where "m0 = round_half_even (n * 2 ^ nat (- e0)) (d * 2 ^ nat e0)"
  note u = round_fp_unfold [OF n k_def lg_def e0_def m0_def, of s]
  have err: "\<bar>real m0 * 2 powi e0 - real n / real d\<bar> \<le> 2 powi e0 / 2"
    using d m0_def by (rule round_error_real)
  have c: "(0::real) \<le> 2 ^ prec f - 1 / 2"
  proof -
    have "(1::real) \<le> 2 ^ prec f" by simp
    then show ?thesis by linarith
  qed
  from r u have ts: "t = s" by (auto split: if_splits)
  have "(2 ^ prec f - 1 / 2) * 2 powi qmax f \<le> real n / real d"
  proof (cases "m0 = 2 ^ prec f")
    case True
    with r u have "qmax f \<le> e0" by (auto split: if_splits)
    then have "(2::real) powi qmax f \<le> 2 powi e0" by (intro power_int_increasing) simp_all
    then have "(2 ^ prec f - 1 / 2) * 2 powi qmax f \<le> (2 ^ prec f - 1 / 2) * (2::real) powi e0"
      using c by (rule mult_left_mono)
    also have "\<dots> = real m0 * 2 powi e0 - 2 powi e0 / 2"
      by (simp add: True algebra_simps)
    also have "\<dots> \<le> real n / real d" using err by linarith
    finally show ?thesis .
  next
    case False
    with r u have "qmax f < e0" by (auto split: if_splits)
    with q have "e0 = lg - (int (prec f) - 1)" "qmax f + int (prec f) \<le> lg"
      by (simp_all add: e0_def max_def split: if_splits)
    have "(2 ^ prec f - 1 / 2) * 2 powi qmax f \<le> 2 ^ prec f * (2::real) powi qmax f"
      by (intro mult_right_mono) simp_all
    also have "\<dots> = 2 powi (qmax f + int (prec f))"
      by (simp add: power_int_add)
    also have "\<dots> \<le> 2 powi lg"
      using \<open>qmax f + int (prec f) \<le> lg\<close> by (intro power_int_increasing) simp_all
    also have "\<dots> \<le> real n / real d"
      using ratio_ge [of n d] n d unfolding lg_def k_def by simp
    finally show ?thesis .
  qed
  with ts show ?thesis by simp
qed

lemma valof_Finite: "valof (Finite s m e) = real_of_int (with_sign s m) * 2 powi e"
  by (simp add: valof_def with_sign_def)

lemma aligned_sum:
  "real_of_int (with_sign s m * 2 ^ nat (e - min e g) + with_sign t n * 2 ^ nat (g - min e g)) * 2 powi min e g =
     valof (Finite s m e) + valof (Finite t n g)"
proof -
  have a: "(2::real) ^ nat (e - min e g) * 2 powi min e g = 2 powi e"
  proof -
    have "(2::real) ^ nat (e - min e g) = 2 powi (e - min e g)" by (simp add: power_int_def)
    then show ?thesis by (simp add: power_int_add [symmetric] del: power_int_diff)
  qed
  have b: "(2::real) ^ nat (g - min e g) * 2 powi min e g = 2 powi g"
  proof -
    have "(2::real) ^ nat (g - min e g) = 2 powi (g - min e g)" by (simp add: power_int_def)
    then show ?thesis by (simp add: power_int_add [symmetric] del: power_int_diff)
  qed
  have "real_of_int (with_sign s m * 2 ^ nat (e - min e g) + with_sign t n * 2 ^ nat (g - min e g)) * 2 powi min e g =
      real_of_int (with_sign s m) * (2 ^ nat (e - min e g) * 2 powi min e g) +
      real_of_int (with_sign t n) * (2 ^ nat (g - min e g) * 2 powi min e g)"
    by (simp add: algebra_simps)
  then show ?thesis by (simp only: a b valof_Finite)
qed

lemma ratio_pow2: "real (a * 2 ^ nat e0) / real (2 ^ nat (- e0)) = real a * 2 powi e0"
  by (cases "0 \<le> e0") (simp_all add: power_int_def field_simps)

text \<open>
  So a finite sum lies within half a unit in its last place of the exact sum of the
  operands.
\<close>

lemma fadd_finite:
  assumes p: "0 < prec f" and r: "fadd f (Finite s m e) (Finite t n g) = Finite u k l"
  shows "\<bar>valof (Finite u k l) - (valof (Finite s m e) + valof (Finite t n g))\<bar> \<le> 2 powi l / 2"
proof -
  define z where "z = with_sign s m * 2 ^ nat (e - min e g) + with_sign t n * 2 ^ nat (g - min e g)"
  have sum: "valof (Finite s m e) + valof (Finite t n g) = real_of_int z * 2 powi min e g"
    unfolding z_def by (rule aligned_sum [symmetric])
  show ?thesis
  proof (cases "z = 0")
    case True
    with r have "k = 0" by (simp add: Let_def z_def)
    then have "valof (Finite u k l) = 0" by (simp add: valof_def)
    moreover from True have "valof (Finite s m e) + valof (Finite t n g) = 0"
      by (simp add: sum)
    ultimately show ?thesis by simp
  next
    case False
    with r have rf: "round_fp f (z < 0) (nat \<bar>z\<bar> * 2 ^ nat (min e g)) (2 ^ nat (- min e g)) = Finite u k l"
      by (simp add: Let_def z_def)
    from round_fp_finite [OF _ p rf] have
      u: "u = (z < 0)" and
      b: "\<bar>real k * 2 powi l - real (nat \<bar>z\<bar> * 2 ^ nat (min e g)) / real (2 ^ nat (- min e g))\<bar> \<le> 2 powi l / 2"
      by simp_all
    from b have b': "\<bar>real k * 2 powi l - real (nat \<bar>z\<bar>) * 2 powi min e g\<bar> \<le> 2 powi l / 2"
      by (simp only: ratio_pow2)
    show ?thesis
    proof (cases "z < 0")
      case True
      then have "real_of_int z = - real (nat \<bar>z\<bar>)" by simp
      then have "valof (Finite s m e) + valof (Finite t n g) = - (real (nat \<bar>z\<bar>) * 2 powi min e g)"
        by (simp add: sum)
      moreover from True have "valof (Finite u k l) = - (real k * 2 powi l)"
        by (simp add: valof_def u)
      ultimately show ?thesis using b' by (simp add: abs_minus_commute)
    next
      case False
      then have "real_of_int z = real (nat \<bar>z\<bar>)" by simp
      then have "valof (Finite s m e) + valof (Finite t n g) = real (nat \<bar>z\<bar>) * 2 powi min e g"
        by (simp only: sum)
      moreover from False have "valof (Finite u k l) = real k * 2 powi l"
        by (simp add: valof_def u)
      ultimately show ?thesis using b' by simp
    qed
  qed
qed

text \<open>Addition is commutative.\<close>

lemma fadd_commute: "fadd f u v = fadd f v u"
  by (cases u; cases v) (auto simp: Let_def min.commute add.commute conj_commute)

section \<open>The sum computed is the sum specified\<close>

text \<open>
  The integer that \<^verbatim>\<open>round_half_even\<close> returns is strictly nearer to the quotient than
  half a unit, or the quotient lies half-way between two integers and the one returned
  is even. So no integer is nearer.
\<close>

lemma round_half_even_cases:
  assumes d: "0 < d"
  shows "2 * \<bar>int (round_half_even n d) * int d - int n\<bar> < int d \<or>
     (2 * (n mod d) = d \<and> even (round_half_even n d))"
proof -
  define q where "q = n div d"
  define r where "r = n mod d"
  have n: "int n = int q * int d + int r"
    unfolding q_def r_def by (metis div_mult_mod_eq of_nat_add of_nat_mult)
  have r: "r < d" unfolding r_def using d by simp
  consider "2 * r < d" | "d < 2 * r" | "2 * r = d" by linarith
  then show ?thesis
  proof cases
    case 1
    then have "round_half_even n d = q" by (simp add: round_half_even_def Let_def q_def r_def)
    with 1 n show ?thesis by simp
  next
    case 2
    then have "round_half_even n d = q + 1" by (simp add: round_half_even_def Let_def q_def r_def)
    with 2 n r show ?thesis by (simp add: algebra_simps)
  next
    case 3
    then have "even (round_half_even n d)" unfolding r_def by (rule round_half_even_tie)
    with 3 show ?thesis by (simp add: r_def)
  qed
qed

lemma round_half_even_tie_abs:
  assumes d: "0 < d" and t: "2 * \<bar>int (round_half_even n d) * int d - int n\<bar> = int d"
  shows "even (round_half_even n d)"
  using round_half_even_cases [OF d, of n] t by auto

text \<open>a nearest integer is at least as near as any other integer\<close>
lemma nearest_int:
  fixes t :: real
  assumes "\<bar>real q - t\<bar> \<le> 1 / 2"
  shows "\<bar>real q - t\<bar> \<le> \<bar>real K - t\<bar>"
    and "K \<noteq> q \<Longrightarrow> \<bar>real K - t\<bar> = \<bar>real q - t\<bar> \<Longrightarrow> \<bar>real q - t\<bar> = 1 / 2"
proof -
  have far: "1 \<le> \<bar>real K - real q\<bar>" if "K \<noteq> q"
  proof -
    from that have "K < q \<or> q < K" by auto
    then have "real K + 1 \<le> real q \<or> real q + 1 \<le> real K"
      by (metis Suc_eq_plus1 Suc_leI of_nat_1 of_nat_add of_nat_le_iff)
    then show ?thesis by auto
  qed
  show "\<bar>real q - t\<bar> \<le> \<bar>real K - t\<bar>"
  proof (cases "K = q")
    case True then show ?thesis by simp
  next
    case False
    from far [OF this] assms show ?thesis by linarith
  qed
  show "\<bar>real q - t\<bar> = 1 / 2" if "K \<noteq> q" "\<bar>real K - t\<bar> = \<bar>real q - t\<bar>"
    using far [OF that(1)] that(2) assms by linarith
qed

text \<open>
  The same on the grid of the multiples of \<open>2^e\<close>, on which \<^verbatim>\<open>round_fp\<close> rounds.
\<close>

lemma scaled_abs:
  fixes r :: real
  shows "\<bar>real K * 2 powi e - r\<bar> = \<bar>real K - r * 2 powi (- e)\<bar> * 2 powi e"
proof -
  have "real K * 2 powi e - r = (real K - r * 2 powi (- e)) * 2 powi e"
    by (simp add: algebra_simps power_int_minus)
  then show ?thesis by (simp add: abs_mult)
qed

lemma round_scaled_half:
  assumes d: "0 < d"
    and m_def: "m = round_half_even (n * 2 ^ nat (- e)) (d * 2 ^ nat e)"
  shows "\<bar>real m - real n / real d * 2 powi (- e)\<bar> \<le> 1 / 2"
    and "\<bar>real m - real n / real d * 2 powi (- e)\<bar> = 1 / 2 \<Longrightarrow> even m"
proof -
  let ?N = "n * 2 ^ nat (- e)" and ?D = "d * 2 ^ nat e"
  from d have D: "0 < ?D" by simp
  have eq: "\<bar>real m - real n / real d * 2 powi (- e)\<bar> =
      real_of_int \<bar>int m * int ?D - int ?N\<bar> / real ?D"
  proof -
    have "real m - real ?N / real ?D = (real m * real ?D - real ?N) / real ?D"
      using D by (simp add: field_simps)
    then have "\<bar>real m - real ?N / real ?D\<bar> = \<bar>real m * real ?D - real ?N\<bar> / real ?D"
      using D by (simp add: abs_divide del: of_nat_mult)
    moreover have "real_of_int \<bar>int m * int ?D - int ?N\<bar> = \<bar>real m * real ?D - real ?N\<bar>"
      by simp
    ultimately have "\<bar>real m - real ?N / real ?D\<bar> = real_of_int \<bar>int m * int ?D - int ?N\<bar> / real ?D"
      by (simp only:)
    then show ?thesis by (simp only: scaled_ratio)
  qed
  from round_half_even_error [OF D, of ?N]
  have le: "2 * \<bar>int m * int ?D - int ?N\<bar> \<le> int ?D" by (simp add: m_def)
  then have "real_of_int (2 * \<bar>int m * int ?D - int ?N\<bar>) \<le> real_of_int (int ?D)"
    by (simp only: of_int_le_iff)
  then have "2 * real_of_int \<bar>int m * int ?D - int ?N\<bar> \<le> real ?D" by simp
  then have "real_of_int \<bar>int m * int ?D - int ?N\<bar> / real ?D \<le> 1 / 2"
    using D by (simp add: field_simps del: of_nat_mult of_int_abs)
  then show "\<bar>real m - real n / real d * 2 powi (- e)\<bar> \<le> 1 / 2" by (simp only: eq)
  show "even m" if "\<bar>real m - real n / real d * 2 powi (- e)\<bar> = 1 / 2"
  proof -
    from that have "real_of_int \<bar>int m * int ?D - int ?N\<bar> / real ?D = 1 / 2" by (simp only: eq)
    then have "2 * real_of_int \<bar>int m * int ?D - int ?N\<bar> = real ?D"
      using D by (simp add: field_simps del: of_nat_mult of_int_abs)
    then have "real_of_int (2 * \<bar>int m * int ?D - int ?N\<bar>) = real_of_int (int ?D)" by simp
    then have "2 * \<bar>int m * int ?D - int ?N\<bar> = int ?D" by (simp only: of_int_eq_iff)
    then have "2 * \<bar>int (round_half_even ?N ?D) * int ?D - int ?N\<bar> = int ?D" by (simp only: m_def)
    from round_half_even_tie_abs [OF D this] show ?thesis by (simp only: m_def)
  qed
qed

lemma grid_nearest:
  assumes d: "0 < d"
    and m_def: "m = round_half_even (n * 2 ^ nat (- e)) (d * 2 ^ nat e)"
  shows "\<bar>real m * 2 powi e - real n / real d\<bar> \<le> \<bar>real K * 2 powi e - real n / real d\<bar>"
    and "K \<noteq> m \<Longrightarrow> \<bar>real K * 2 powi e - real n / real d\<bar> = \<bar>real m * 2 powi e - real n / real d\<bar>
      \<Longrightarrow> even m"
proof -
  let ?t = "real n / real d * 2 powi (- e)"
  note h = round_scaled_half [OF d m_def]
  have pos: "(0::real) < 2 powi e" by simp
  have "\<bar>real m - ?t\<bar> \<le> \<bar>real K - ?t\<bar>" using h(1) by (rule nearest_int(1))
  then have "\<bar>real m - ?t\<bar> * 2 powi e \<le> \<bar>real K - ?t\<bar> * 2 powi e"
    by (intro mult_right_mono) simp_all
  then show "\<bar>real m * 2 powi e - real n / real d\<bar> \<le> \<bar>real K * 2 powi e - real n / real d\<bar>"
    by (simp only: scaled_abs)
  show "even m" if k: "K \<noteq> m"
    and eq: "\<bar>real K * 2 powi e - real n / real d\<bar> = \<bar>real m * 2 powi e - real n / real d\<bar>"
  proof -
    from eq have "\<bar>real K - ?t\<bar> * 2 powi e = \<bar>real m - ?t\<bar> * 2 powi e"
      by (simp only: scaled_abs)
    with pos have "\<bar>real K - ?t\<bar> = \<bar>real m - ?t\<bar>" by simp
    with nearest_int(2) [OF h(1) k] have "\<bar>real m - ?t\<bar> = 1 / 2" by simp
    then show ?thesis by (rule h(2))
  qed
qed

text \<open>
  The exponent that \<^verbatim>\<open>round_fp\<close> chooses is the least at which the quotient fits the
  precision. A value of the format with a greater exponent lies on a coarser grid, and
  one with a lesser exponent is no greater than the largest value of the finer grid below
  the quotient: the result is nearest among all the values of the format.
\<close>

lemma round_mag_nearest:
  assumes n: "0 < n" and d: "0 < d" and p: "0 < prec f"
    and k_def: "k = int (bitlen n) - int (bitlen d)"
    and lg_def: "lg = (if d * 2 ^ nat k \<le> n * 2 ^ nat (- k) then k else k - 1)"
    and e0_def: "e0 = max (qmin f) (lg - (int (prec f) - 1))"
    and m0_def: "m0 = round_half_even (n * 2 ^ nat (- e0)) (d * 2 ^ nat e0)"
    and m': "m' < 2 ^ prec f" and e': "qmin f \<le> e'"
  shows "\<bar>real m0 * 2 powi e0 - real n / real d\<bar> \<le> \<bar>real m' * 2 powi e' - real n / real d\<bar>"
    and "real m' * 2 powi e' \<noteq> real m0 * 2 powi e0 \<Longrightarrow>
      \<bar>real m' * 2 powi e' - real n / real d\<bar> = \<bar>real m0 * 2 powi e0 - real n / real d\<bar> \<Longrightarrow>
      even m0"
proof -
  let ?r = "real n / real d"
  note g = grid_nearest [OF d m0_def]
  have both: "\<bar>real m0 * 2 powi e0 - ?r\<bar> \<le> \<bar>real m' * 2 powi e' - ?r\<bar> \<and>
      (real m' * 2 powi e' \<noteq> real m0 * 2 powi e0 \<longrightarrow>
       \<bar>real m' * 2 powi e' - ?r\<bar> = \<bar>real m0 * 2 powi e0 - ?r\<bar> \<longrightarrow> even m0)"
  proof (cases "e0 \<le> e'")
    case True
    define K where "K = m' * 2 ^ nat (e' - e0)"
    have "(2::real) ^ nat (e' - e0) = 2 powi (e' - e0)" using True by (simp add: power_int_def)
    then have "real K * 2 powi e0 = real m' * (2 powi (e' - e0) * 2 powi e0)"
      by (simp add: K_def)
    also have "2 powi (e' - e0) * (2::real) powi e0 = 2 powi e'"
      by (simp add: power_int_add [symmetric] del: power_int_diff)
    finally have K: "real K * 2 powi e0 = real m' * 2 powi e'" .
    have 1: "\<bar>real m0 * 2 powi e0 - ?r\<bar> \<le> \<bar>real m' * 2 powi e' - ?r\<bar>"
      using g(1) [of K] by (simp only: K)
    have 2: "even m0" if ne: "real m' * 2 powi e' \<noteq> real m0 * 2 powi e0"
      and eq: "\<bar>real m' * 2 powi e' - ?r\<bar> = \<bar>real m0 * 2 powi e0 - ?r\<bar>"
    proof -
      from ne K have "K \<noteq> m0" by auto
      moreover from eq have "\<bar>real K * 2 powi e0 - ?r\<bar> = \<bar>real m0 * 2 powi e0 - ?r\<bar>"
        by (simp only: K)
      ultimately show ?thesis by (rule g(2))
    qed
    from 1 2 show ?thesis by blast
  next
    case False
    with e' have e0: "e0 = lg - (int (prec f) - 1)" "e' \<le> e0 - 1"
      by (simp_all add: e0_def max_def split: if_splits)
    have r: "2 powi lg \<le> ?r"
      using ratio_ge [OF n d] unfolding lg_def k_def .
    have "real m' < 2 ^ prec f" using m' by (metis of_nat_less_iff of_nat_numeral of_nat_power)
    then have "real m' * 2 powi e' < 2 ^ prec f * 2 powi e'"
      by (intro mult_strict_right_mono) simp_all
    also have "\<dots> = 2 powi (int (prec f) + e')" by (simp add: power_int_add)
    also have "\<dots> \<le> 2 powi lg"
      using e0 by (intro power_int_increasing) simp_all
    finally have lt: "real m' * 2 powi e' < 2 powi lg" .
    have "(2::real) ^ (prec f - 1) = 2 powi (int (prec f) - 1)"
      using p by (simp add: power_int_def nat_diff_distrib')
    then have "real ((2::nat) ^ (prec f - 1)) * 2 powi e0 = 2 powi (int (prec f) - 1) * 2 powi e0"
      by simp
    also have "\<dots> = 2 powi lg"
      by (simp add: e0 power_int_add [symmetric])
    finally have K: "real ((2::nat) ^ (prec f - 1)) * 2 powi e0 = 2 powi lg" .
    have "\<bar>real m0 * 2 powi e0 - ?r\<bar> \<le> \<bar>2 powi lg - ?r\<bar>"
      using g(1) [of "2 ^ (prec f - 1)"] by (simp only: K)
    also have "\<dots> < \<bar>real m' * 2 powi e' - ?r\<bar>"
      using r lt by linarith
    finally show ?thesis by simp
  qed
  from both show "\<bar>real m0 * 2 powi e0 - ?r\<bar> \<le> \<bar>real m' * 2 powi e' - ?r\<bar>" by blast
  from both show "even m0"
    if "real m' * 2 powi e' \<noteq> real m0 * 2 powi e0"
      "\<bar>real m' * 2 powi e' - ?r\<bar> = \<bar>real m0 * 2 powi e0 - ?r\<bar>"
    using that by blast
qed

lemma threshold_pos: "0 < threshold f"
proof -
  have "(1::real) \<le> 2 ^ prec f" by simp
  then have "(0::real) < 2 ^ prec f - 1 / 2" by linarith
  then show ?thesis by (simp add: threshold_def)
qed

lemma scale_back:
  fixes r :: real
  assumes "r * 2 powi (- e) < c"
  shows "r < c * 2 powi e"
proof -
  from assms have "r * 2 powi (- e) * 2 powi e < c * 2 powi e"
    by (intro mult_strict_right_mono) simp_all
  moreover have "r * 2 powi (- e) * 2 powi e = r"
    by (simp add: power_int_minus)
  ultimately show ?thesis by (simp only:)
qed

lemma round_fp_mag:
  assumes n: "0 < n" and d: "0 < d" and p: "2 \<le> prec f" and q: "qmin f \<le> qmax f"
    and r: "round_fp f s n d = Finite t m e"
  shows "t = s"
    and "m' < 2 ^ prec f \<Longrightarrow> qmin f \<le> e' \<Longrightarrow>
      \<bar>real m * 2 powi e - real n / real d\<bar> \<le> \<bar>real m' * 2 powi e' - real n / real d\<bar>"
    and "m' < 2 ^ prec f \<Longrightarrow> qmin f \<le> e' \<Longrightarrow> real m' * 2 powi e' \<noteq> real m * 2 powi e \<Longrightarrow>
      \<bar>real m' * 2 powi e' - real n / real d\<bar> = \<bar>real m * 2 powi e - real n / real d\<bar> \<Longrightarrow> even m"
    and "real n / real d < threshold f"
proof -
  let ?r = "real n / real d"
  from p have p0: "0 < prec f" by simp
  from n have n0: "n \<noteq> 0" by simp
  define k where "k = int (bitlen n) - int (bitlen d)"
  define lg where "lg = (if d * 2 ^ nat k \<le> n * 2 ^ nat (- k) then k else k - 1)"
  define e0 where "e0 = max (qmin f) (lg - (int (prec f) - 1))"
  define m0 where "m0 = round_half_even (n * 2 ^ nat (- e0)) (d * 2 ^ nat e0)"
  note u = round_fp_unfold [OF n0 k_def lg_def e0_def m0_def, of s]
  note near = round_mag_nearest [OF n d p0 k_def lg_def e0_def m0_def]
  note half = round_scaled_half [OF d m0_def]
  from round_fp_is_value [OF d p0 q, of s n] r have iv: "m < 2 ^ prec f" "e \<le> qmax f"
    by (simp_all add: is_value_def)
  have shape: "t = s \<and> real m * 2 powi e = real m0 * 2 powi e0 \<and> (even m0 \<longrightarrow> even m) \<and>
      ((m0 = 2 ^ prec f \<and> e = e0 + 1) \<or> (m0 < 2 ^ prec f \<and> m = m0 \<and> e = e0))"
  proof (cases "m0 = 2 ^ prec f")
    case True
    with r u have v: "t = s" "m = 2 ^ (prec f - 1)" "e = e0 + 1"
      by (auto split: if_splits)
    have "real m * 2 powi e = 2 ^ (prec f - 1) * (2 powi e0 * 2)"
      by (simp add: v power_int_add)
    also have "\<dots> = 2 ^ Suc (prec f - 1) * 2 powi e0" by simp
    also have "\<dots> = real m0 * 2 powi e0" using p0 True by simp
    finally have "real m * 2 powi e = real m0 * 2 powi e0" .
    moreover from p have "even m" by (simp add: v)
    ultimately show ?thesis using v True by simp
  next
    case False
    with r u have v: "t = s" "m = m0" "e = e0"
      by (auto split: if_splits)
    with iv False show ?thesis by simp
  qed
  from shape show "t = s" by simp
  from shape have val: "real m * 2 powi e = real m0 * 2 powi e0" by simp
  show "\<bar>real m * 2 powi e - ?r\<bar> \<le> \<bar>real m' * 2 powi e' - ?r\<bar>"
    if "m' < 2 ^ prec f" "qmin f \<le> e'"
    using near(1) [OF that] by (simp only: val)
  show "even m" if "m' < 2 ^ prec f" "qmin f \<le> e'" "real m' * 2 powi e' \<noteq> real m * 2 powi e"
    "\<bar>real m' * 2 powi e' - ?r\<bar> = \<bar>real m * 2 powi e - ?r\<bar>"
  proof -
    from that(3) have a: "real m' * 2 powi e' \<noteq> real m0 * 2 powi e0"
      unfolding val .
    from that(4) have b: "\<bar>real m' * 2 powi e' - ?r\<bar> = \<bar>real m0 * 2 powi e0 - ?r\<bar>"
      unfolding val .
    from near(2) [OF that(1,2) a b] shape show ?thesis by simp
  qed
  show "?r < threshold f"
  proof -
    have t: "?r = (?r * 2 powi (- e0)) * 2 powi e0"
      by (simp add: power_int_minus)
    have c: "(0::real) \<le> 2 ^ prec f - 1 / 2"
    proof -
      have "(1::real) \<le> 2 ^ prec f" by simp
      then show ?thesis by linarith
    qed
    have four: "(4::real) \<le> 2 ^ prec f"
    proof -
      have "(2::real) ^ 2 \<le> 2 ^ prec f" using p by (intro power_increasing) simp_all
      then show ?thesis by simp
    qed
    from shape consider (carry) "m0 = 2 ^ prec f" "e = e0 + 1"
      | (plain) "m0 < 2 ^ prec f" "m = m0" "e = e0" by blast
    then show ?thesis
    proof cases
      case carry
      have "real m0 = 2 ^ prec f" by (simp add: carry(1))
      with half(1) have "\<bar>2 ^ prec f - ?r * 2 powi (- e0)\<bar> \<le> 1 / 2" by (simp only:)
      then have "?r * 2 powi (- e0) \<le> 2 ^ prec f + 1 / 2" by linarith
      also have "\<dots> < (2 ^ prec f - 1 / 2) * 2" using four by (simp add: algebra_simps)
      finally have "?r < (2 ^ prec f - 1 / 2) * 2 * 2 powi e0"
        by (rule scale_back)
      also have "(2 ^ prec f - 1 / 2) * 2 * 2 powi e0 = (2 ^ prec f - 1 / 2) * (2::real) powi e"
        by (simp add: carry(2) power_int_add)
      also have "\<dots> \<le> (2 ^ prec f - 1 / 2) * 2 powi qmax f"
        using c iv(2) by (intro mult_left_mono power_int_increasing) simp_all
      finally show ?thesis by (simp add: threshold_def)
    next
      case plain
      have odd_or: "real m0 + 1 \<le> 2 ^ prec f"
      proof -
        from plain(1) have "m0 + 1 \<le> 2 ^ prec f" by simp
        then have "real (m0 + 1) \<le> real (2 ^ prec f)" by (simp only: of_nat_le_iff)
        then show ?thesis by simp
      qed
      have lt: "?r * 2 powi (- e0) < 2 ^ prec f - 1 / 2"
      proof (cases "m0 + 1 = 2 ^ prec f")
        case True
        from p0 have "even ((2::nat) ^ prec f)" by simp
        with True have "odd m0" by (metis even_add odd_one)
        with half(2) have "\<bar>real m0 - ?r * 2 powi (- e0)\<bar> \<noteq> 1 / 2" by blast
        with half(1) have "\<bar>real m0 - ?r * 2 powi (- e0)\<bar> < 1 / 2" by linarith
        with odd_or show ?thesis by linarith
      next
        case False
        with plain(1) have "m0 + 2 \<le> 2 ^ prec f" by simp
        then have "real (m0 + 2) \<le> real (2 ^ prec f)" by (simp only: of_nat_le_iff)
        then have "real m0 + 2 \<le> 2 ^ prec f" by simp
        with half(1) show ?thesis by linarith
      qed
      then have "?r < (2 ^ prec f - 1 / 2) * 2 powi e0"
        by (rule scale_back)
      also have "\<dots> \<le> (2 ^ prec f - 1 / 2) * 2 powi qmax f"
        using c iv(2) plain(3) by (intro mult_left_mono power_int_increasing) simp_all
      finally show ?thesis by (simp add: threshold_def)
    qed
  qed
qed

text \<open>
  With the sign: \<^verbatim>\<open>round_fp\<close> rounds as the standard specifies, and so \<^verbatim>\<open>fadd\<close>
  adds as the standard specifies, for every format of at least two bits of precision.
\<close>

lemma nearest_even_zero:
  assumes q: "qmin f \<le> qmax f"
  shows "nearest_even f 0 (Finite b 0 (qmin f))"
  using q threshold_pos [of f] by (simp add: nearest_even_def is_value_def valof_def)

lemma round_fp_not_NaN: "round_fp f s n d \<noteq> NaN"
  by (simp add: round_fp_def Let_def)

lemma abs_diff_signed:
  fixes a q :: real
  assumes "0 \<le> a" and "0 < q"
  shows "\<bar>a - q\<bar> \<le> \<bar>(if s' then - 1 else 1) * a - (if s then - 1 else 1) * q\<bar>"
  using assms by (cases s; cases s') auto

lemma abs_diff_opposite:
  fixes a q :: real
  assumes "0 \<le> a" and "0 < q" and "s' \<noteq> s"
    and "\<bar>(if s' then - 1 else 1) * a - (if s then - 1 else 1) * q\<bar> = \<bar>a - q\<bar>"
  shows "a = 0"
  using assms by (cases s; cases s') auto

lemma round_fp_nearest_even:
  assumes d: "0 < d" and p: "2 \<le> prec f" and q: "qmin f \<le> qmax f"
  shows "nearest_even f ((if s then - 1 else 1) * (real n / real d)) (round_fp f s n d)"
proof (cases "n = 0")
  case True
  then show ?thesis using nearest_even_zero [OF q] by (simp add: round_fp_def)
next
  case False
  then have n: "0 < n" by simp
  from p have p0: "0 < prec f" by simp
  let ?q = "real n / real d"
  let ?r = "(if s then - 1 else 1) * ?q"
  from n d have qpos: "0 < ?q" by simp
  have ar: "\<bar>?r\<bar> = ?q" using qpos by simp
  have neg: "?r < 0 \<longleftrightarrow> s" using qpos by simp
  have pos: "0 < ?r \<longleftrightarrow> \<not> s" using qpos by simp
  show ?thesis
  proof (cases "round_fp f s n d")
    case NaN
    with round_fp_not_NaN show ?thesis by blast
  next
    case (Infinity t)
    from round_fp_overflow [OF d q Infinity] have "t = s" "threshold f \<le> ?q"
      by (simp_all add: threshold_def)
    then show ?thesis unfolding Infinity nearest_even_def fp.case ar neg by simp
  next
    case (Finite t m e)
    note mag = round_fp_mag [OF n d p q Finite]
    from round_fp_is_value [OF d p0 q, of s n] have iv: "is_value f (Finite t m e)"
      by (simp only: Finite)
    from round_fp_finite [OF d p0 Finite] False have canon: "2 ^ (prec f - 1) \<le> m \<or> e = qmin f"
      by simp
    from mag(1) have ts: "t = s" .
    let ?v = "real m * 2 powi e"
    have v0: "0 \<le> ?v" by simp
    have vw: "valof (Finite t m e) = (if s then - 1 else 1) * ?v"
      by (simp add: valof_def ts)
    have near: "\<bar>valof (Finite t m e) - ?r\<bar> \<le> \<bar>valof (Finite s' m' e') - ?r\<bar> \<and>
        (valof (Finite s' m' e') \<noteq> valof (Finite t m e) \<and>
         \<bar>valof (Finite s' m' e') - ?r\<bar> = \<bar>valof (Finite t m e) - ?r\<bar> \<longrightarrow> even m)"
      if c: "is_value f (Finite s' m' e')" for s' m' e'
    proof -
      from c have b: "m' < 2 ^ prec f" "qmin f \<le> e'" by (simp_all add: is_value_def)
      let ?v' = "real m' * 2 powi e'"
      have v'0: "0 \<le> ?v'" by simp
      have vc: "valof (Finite s' m' e') = (if s' then - 1 else 1) * ?v'"
        by (simp add: valof_def)
      note le = mag(2) [OF b]
      have same: "\<bar>valof (Finite t m e) - ?r\<bar> = \<bar>?v - ?q\<bar>"
        unfolding vw by (cases s) simp_all
      have other: "\<bar>?v' - ?q\<bar> \<le> \<bar>valof (Finite s' m' e') - ?r\<bar>"
        unfolding vc using v'0 qpos by (rule abs_diff_signed)
      have first: "\<bar>valof (Finite t m e) - ?r\<bar> \<le> \<bar>valof (Finite s' m' e') - ?r\<bar>"
        using le other unfolding same by linarith
      have second: "even m"
        if ne: "valof (Finite s' m' e') \<noteq> valof (Finite t m e)"
          and eq: "\<bar>valof (Finite s' m' e') - ?r\<bar> = \<bar>valof (Finite t m e) - ?r\<bar>"
      proof -
        from eq le other have eq': "\<bar>?v' - ?q\<bar> = \<bar>?v - ?q\<bar>"
          unfolding same by linarith
        have ne': "?v' \<noteq> ?v"
        proof (cases "s' = s")
          case True
          with ne show ?thesis unfolding vw vc by auto
        next
          case F: False
          from eq eq' have e2: "\<bar>(if s' then - 1 else 1) * ?v' - ?r\<bar> = \<bar>?v' - ?q\<bar>"
            unfolding vc same by simp
          from v'0 qpos F e2 have z: "?v' = 0" by (rule abs_diff_opposite)
          show ?thesis
          proof
            assume "?v' = ?v"
            with z have "?v = 0" by simp
            with z have "valof (Finite s' m' e') = valof (Finite t m e)"
              unfolding vw vc by simp
            with ne show False by simp
          qed
        qed
        from mag(3) [OF b ne' eq'] show ?thesis .
      qed
      from first second show ?thesis by blast
    qed
    from mag(4) have thr: "\<bar>?r\<bar> < threshold f" unfolding ar .
    show ?thesis
      unfolding Finite nearest_even_def fp.case
      using iv canon thr neg pos near ts by blast
  qed
qed

lemma fadd_ieee_add:
  assumes p: "2 \<le> prec f" and q: "qmin f \<le> qmax f"
  shows "ieee_add f u v (fadd f u v)"
proof (cases u)
  case NaN
  then show ?thesis by (simp add: ieee_add_def)
next
  case (Infinity s)
  then show ?thesis by (cases v) (simp_all add: ieee_add_def)
next
  case U: (Finite s m e)
  show ?thesis
  proof (cases v)
    case NaN
    with U show ?thesis by (simp add: ieee_add_def)
  next
    case (Infinity t)
    with U show ?thesis by (simp add: ieee_add_def)
  next
    case V: (Finite t n g)
    define z where "z = with_sign s m * 2 ^ nat (e - min e g) + with_sign t n * 2 ^ nat (g - min e g)"
    have sum: "valof u + valof v = real_of_int z * 2 powi min e g"
      unfolding z_def U V by (rule aligned_sum [symmetric])
    have zero: "valof u + valof v = 0 \<longleftrightarrow> z = 0"
      by (simp add: sum)
    have unf: "ieee_add f u v w \<longleftrightarrow> nearest_even f (valof u + valof v) w \<and>
        (valof u + valof v = 0 \<longrightarrow> w = Finite (if s = t then s else False) 0 (qmin f))" for w
      by (simp add: ieee_add_def U V)
    show ?thesis
    proof (cases "z = 0")
      case True
      then have res: "fadd f u v = Finite (s \<and> t) 0 (qmin f)"
        by (simp add: U V Let_def z_def)
      from True zero have s0: "valof u + valof v = 0" by simp
      have "(s \<and> t) = (if s = t then s else False)" by auto
      with nearest_even_zero [OF q, of "s \<and> t"] s0 show ?thesis
        unfolding unf res by simp
    next
      case False
      then have res: "fadd f u v = round_fp f (z < 0) (nat \<bar>z\<bar> * 2 ^ nat (min e g)) (2 ^ nat (- min e g))"
        by (simp add: U V Let_def z_def)
      have "real_of_int z = (if z < 0 then - 1 else 1) * real (nat \<bar>z\<bar>)" by simp
      then have "valof u + valof v = (if z < 0 then - 1 else 1) * (real (nat \<bar>z\<bar>) * 2 powi min e g)"
        unfolding sum by (simp only: mult.assoc)
      then have r: "valof u + valof v =
          (if z < 0 then - 1 else 1) * (real (nat \<bar>z\<bar> * 2 ^ nat (min e g)) / real (2 ^ nat (- min e g)))"
        by (simp only: ratio_pow2)
      have "nearest_even f (valof u + valof v) (fadd f u v)"
        unfolding res r by (rule round_fp_nearest_even [OF _ p q]) simp
      moreover from False zero have "valof u + valof v \<noteq> 0" by simp
      ultimately show ?thesis
        unfolding unf by simp
    qed
  qed
qed

text \<open>
  The specification allows one result only: two values of the format next to each other
  do not both have an even significand.
\<close>

lemma canonical_less:
  assumes p: "0 < p" and m: "m < 2 ^ p" and m': "2 ^ (p - 1) \<le> m'" and e: "e < e'"
  shows "real m * 2 powi e < real m' * 2 powi e'"
proof -
  from m have "real m < real (2 ^ p)" by (simp only: of_nat_less_iff)
  then have "real m < 2 ^ p" by simp
  then have "real m * 2 powi e < 2 ^ p * 2 powi e"
    by (intro mult_strict_right_mono) simp_all
  also have "(2::real) ^ p * 2 powi e = 2 ^ Suc (p - 1) * 2 powi e" using p by simp
  also have "\<dots> = 2 ^ (p - 1) * 2 powi (e + 1)" by (simp add: power_int_add)
  also have "\<dots> \<le> 2 ^ (p - 1) * 2 powi e'"
    using e by (intro mult_left_mono power_int_increasing) simp_all
  also have "\<dots> \<le> real m' * 2 powi e'"
  proof -
    from m' have "real (2 ^ (p - 1)) \<le> real m'" by (simp only: of_nat_le_iff)
    then have "2 ^ (p - 1) \<le> real m'" by simp
    then show ?thesis by (intro mult_right_mono) simp_all
  qed
  finally show ?thesis .
qed

lemma adjacent_even_false:
  assumes p: "0 < p" and m: "m < 2 ^ p" "even m" and m': "m' < 2 ^ p" "even m'"
    and c: "2 ^ (p - 1) \<le> m \<or> e = l" and c': "2 ^ (p - 1) \<le> m' \<or> e' = l"
    and e: "l \<le> e" and e': "l \<le> e'"
    and lt: "real m * 2 powi e < real m' * 2 powi e'"
    and gap: "\<not> real (m + 1) * 2 powi e < real m' * 2 powi e'"
  shows False
proof -
  from p have "even ((2::nat) ^ p)" by simp
  with m(2) have "m + 1 \<noteq> 2 ^ p" by (metis even_add odd_one)
  with m(1) have m1: "m + 1 < 2 ^ p" by simp
  consider "e' < e" | "e' = e" | "e < e'" by linarith
  then show False
  proof cases
    case 1
    with e' c have "2 ^ (p - 1) \<le> m" by auto
    from canonical_less [OF p m'(1) this 1] lt show False by simp
  next
    case 2
    from lt have "real m < real m'" unfolding 2 by simp
    then have a: "m < m'" by (simp only: of_nat_less_iff)
    from gap have "real m' \<le> real (m + 1)" unfolding 2 by (simp add: not_less)
    then have "m' \<le> m + 1" by (simp only: of_nat_le_iff)
    with a have "m' = m + 1" by simp
    with m(2) m'(2) show False by simp
  next
    case 3
    with e c' have "2 ^ (p - 1) \<le> m'" by auto
    from canonical_less [OF p m1 this 3] gap show False by simp
  qed
qed

lemma canonical_unique:
  assumes p: "0 < p" and m: "m < 2 ^ p" and m': "m' < 2 ^ p"
    and c: "2 ^ (p - 1) \<le> m \<or> e = l" and c': "2 ^ (p - 1) \<le> m' \<or> e' = l"
    and e: "l \<le> e" and e': "l \<le> e'"
    and eq: "real m * 2 powi e = real m' * 2 powi e'"
  shows "m = m' \<and> e = e'"
proof -
  consider "e' < e" | "e' = e" | "e < e'" by linarith
  then show ?thesis
  proof cases
    case 1
    with e' c have "2 ^ (p - 1) \<le> m" by auto
    from canonical_less [OF p m' this 1] eq show ?thesis by simp
  next
    case 2
    with eq show ?thesis by simp
  next
    case 3
    with e c' have "2 ^ (p - 1) \<le> m'" by auto
    from canonical_less [OF p m this 3] eq show ?thesis by simp
  qed
qed

lemma nearest_even_mag:
  assumes N: "nearest_even f r (Finite s m e)" and r: "r \<noteq> 0"
  shows "s \<longleftrightarrow> r < 0"
    and "m < 2 ^ prec f" and "qmin f \<le> e" and "e \<le> qmax f"
    and "2 ^ (prec f - 1) \<le> m \<or> e = qmin f"
    and "m' < 2 ^ prec f \<Longrightarrow> qmin f \<le> e' \<Longrightarrow> e' \<le> qmax f \<Longrightarrow>
      \<bar>real m * 2 powi e - \<bar>r\<bar>\<bar> \<le> \<bar>real m' * 2 powi e' - \<bar>r\<bar>\<bar>"
    and "m' < 2 ^ prec f \<Longrightarrow> qmin f \<le> e' \<Longrightarrow> e' \<le> qmax f \<Longrightarrow>
      real m' * 2 powi e' \<noteq> real m * 2 powi e \<Longrightarrow>
      \<bar>real m' * 2 powi e' - \<bar>r\<bar>\<bar> = \<bar>real m * 2 powi e - \<bar>r\<bar>\<bar> \<Longrightarrow> even m"
proof -
  from N r show sg: "s \<longleftrightarrow> r < 0" by (auto simp: nearest_even_def)
  from N show "m < 2 ^ prec f" "qmin f \<le> e" "e \<le> qmax f" "2 ^ (prec f - 1) \<le> m \<or> e = qmin f"
    by (simp_all add: nearest_even_def is_value_def)
  have d: "\<bar>valof (Finite s k j) - r\<bar> = \<bar>real k * 2 powi j - \<bar>r\<bar>\<bar>" for k j
    using sg by (cases "r < 0") (simp_all add: valof_def)
  have v: "valof (Finite s k j) = valof (Finite s m e) \<longleftrightarrow> real k * 2 powi j = real m * 2 powi e" for k j
    by (simp add: valof_def)
  note a = N [unfolded nearest_even_def fp.case]
  from a have all: "is_value f (Finite s m' e') \<longrightarrow>
      \<bar>valof (Finite s m e) - r\<bar> \<le> \<bar>valof (Finite s m' e') - r\<bar> \<and>
      (valof (Finite s m' e') \<noteq> valof (Finite s m e) \<and>
       \<bar>valof (Finite s m' e') - r\<bar> = \<bar>valof (Finite s m e) - r\<bar> \<longrightarrow> even m)"
    by blast
  show "\<bar>real m * 2 powi e - \<bar>r\<bar>\<bar> \<le> \<bar>real m' * 2 powi e' - \<bar>r\<bar>\<bar>"
    if "m' < 2 ^ prec f" "qmin f \<le> e'" "e' \<le> qmax f"
    using all that unfolding d by (simp add: is_value_def)
  show "even m"
    if "m' < 2 ^ prec f" "qmin f \<le> e'" "e' \<le> qmax f" "real m' * 2 powi e' \<noteq> real m * 2 powi e"
      "\<bar>real m' * 2 powi e' - \<bar>r\<bar>\<bar> = \<bar>real m * 2 powi e - \<bar>r\<bar>\<bar>"
    using all that unfolding d v by (simp add: is_value_def)
qed

lemma nearest_gap:
  fixes a b c \<rho> :: real
  assumes "a < b" and "\<bar>a - \<rho>\<bar> = \<bar>b - \<rho>\<bar>" and "a < c" and "\<bar>a - \<rho>\<bar> \<le> \<bar>c - \<rho>\<bar>"
  shows "\<not> c < b"
  using assms by linarith

lemma nearest_even_unique:
  assumes p: "0 < prec f" and r: "r \<noteq> 0"
    and N: "nearest_even f r w" and N': "nearest_even f r w'"
  shows "w = w'"
proof (cases w)
  case NaN
  with N show ?thesis by (simp add: nearest_even_def)
next
  case W: (Infinity s)
  show ?thesis
  proof (cases w')
    case NaN
    with N' show ?thesis by (simp add: nearest_even_def)
  next
    case (Infinity s')
    with W N N' show ?thesis by (simp add: nearest_even_def)
  next
    case (Finite s' m' e')
    with W N N' show ?thesis by (simp add: nearest_even_def)
  qed
next
  case W: (Finite s m e)
  show ?thesis
  proof (cases w')
    case NaN
    with N' show ?thesis by (simp add: nearest_even_def)
  next
    case (Infinity s')
    with W N N' show ?thesis by (simp add: nearest_even_def)
  next
    case W': (Finite s' m' e')
    note A = nearest_even_mag [OF N [unfolded W] r]
    note B = nearest_even_mag [OF N' [unfolded W'] r]
    let ?a = "real m * 2 powi e"
    let ?b = "real m' * 2 powi e'"
    from A(1) B(1) have ss: "s = s'" by simp
    from A(6) [OF B(2,3,4)] B(6) [OF A(2,3,4)]
    have dist: "\<bar>?a - \<bar>r\<bar>\<bar> = \<bar>?b - \<bar>r\<bar>\<bar>" by linarith
    have eq: "?a = ?b"
    proof (rule ccontr)
      assume ne: "?a \<noteq> ?b"
      from A(7) [OF B(2,3,4) ne [symmetric] dist [symmetric]] have em: "even m" .
      from B(7) [OF A(2,3,4) ne dist] have em': "even m'" .
      from p have ev: "even ((2::nat) ^ prec f)" by simp
      from ne consider "?a < ?b" | "?b < ?a" by linarith
      then show False
      proof cases
        case 1
        from ev em have "m + 1 \<noteq> 2 ^ prec f" by (metis even_add odd_one)
        with A(2) have m1: "m + 1 < 2 ^ prec f" by simp
        have "?a < real (m + 1) * 2 powi e" by (simp add: algebra_simps)
        with 1 dist A(6) [OF m1 A(3,4)] have "\<not> real (m + 1) * 2 powi e < ?b"
          by (intro nearest_gap [of ?a ?b "\<bar>r\<bar>"]) simp_all
        from adjacent_even_false [OF p A(2) em B(2) em' A(5) B(5) A(3) B(3) 1 this]
        show False .
      next
        case 2
        from ev em' have "m' + 1 \<noteq> 2 ^ prec f" by (metis even_add odd_one)
        with B(2) have m1: "m' + 1 < 2 ^ prec f" by simp
        have "?b < real (m' + 1) * 2 powi e'" by (simp add: algebra_simps)
        with 2 dist B(6) [OF m1 B(3,4)] have "\<not> real (m' + 1) * 2 powi e' < ?a"
          by (intro nearest_gap [of ?b ?a "\<bar>r\<bar>"]) simp_all
        from adjacent_even_false [OF p B(2) em' A(2) em B(5) A(5) B(3) A(3) 2 this]
        show False .
      qed
    qed
    from canonical_unique [OF p A(2) B(2) A(5) B(5) A(3) B(3) eq] ss
    show ?thesis by (simp add: W W')
  qed
qed

lemma ieee_add_unique:
  assumes p: "0 < prec f" and a: "ieee_add f u v w" and b: "ieee_add f u v w'"
  shows "w = w'"
proof (cases "\<exists>s m e t n g. u = Finite s m e \<and> v = Finite t n g")
  case True
  then obtain s m e t n g where uv: "u = Finite s m e" "v = Finite t n g" by blast
  from a have a': "nearest_even f (valof u + valof v) w"
    "valof u + valof v = 0 \<Longrightarrow> w = Finite (if s = t then s else False) 0 (qmin f)"
    by (simp_all add: ieee_add_def uv)
  from b have b': "nearest_even f (valof u + valof v) w'"
    "valof u + valof v = 0 \<Longrightarrow> w' = Finite (if s = t then s else False) 0 (qmin f)"
    by (simp_all add: ieee_add_def uv)
  show ?thesis
  proof (cases "valof u + valof v = 0")
    case True
    with a'(2) b'(2) show ?thesis by simp
  next
    case False
    from nearest_even_unique [OF p False a'(1) b'(1)] show ?thesis .
  qed
next
  case False
  with a b show ?thesis
    by (cases u; cases v) (simp_all add: ieee_add_def)
qed

text \<open>
  So \<^verbatim>\<open>+\<close> on \<^verbatim>\<open>float\<close> and on \<^verbatim>\<open>double\<close> is the sum of IEEE 754, and nothing else is.
\<close>

lemma fadd32_ieee_add: "fadd32 u v = w \<longleftrightarrow> ieee_add binary32 u v w"
proof
  assume "fadd32 u v = w"
  with fadd_ieee_add [of binary32 u v] show "ieee_add binary32 u v w"
    by (simp add: fadd32_def binary32_def)
next
  assume "ieee_add binary32 u v w"
  moreover have "ieee_add binary32 u v (fadd32 u v)"
    unfolding fadd32_def by (rule fadd_ieee_add) (simp_all add: binary32_def)
  ultimately show "fadd32 u v = w"
    by (intro ieee_add_unique [of binary32 u v]) (simp_all add: binary32_def)
qed

lemma fadd64_ieee_add: "fadd64 u v = w \<longleftrightarrow> ieee_add binary64 u v w"
proof
  assume "fadd64 u v = w"
  with fadd_ieee_add [of binary64 u v] show "ieee_add binary64 u v w"
    by (simp add: fadd64_def binary64_def)
next
  assume "ieee_add binary64 u v w"
  moreover have "ieee_add binary64 u v (fadd64 u v)"
    unfolding fadd64_def by (rule fadd_ieee_add) (simp_all add: binary64_def)
  ultimately show "fadd64 u v = w"
    by (intro ieee_add_unique [of binary64 u v]) (simp_all add: binary64_def)
qed

section \<open>Properties of the loop of sum_vectors\<close>

lemma allocated_iff: "allocated h v len \<longleftrightarrow> (\<forall>i<len. v + i \<in> dom h)"
  by (auto simp: allocated_def list_all_iff)

lemma sum_vectors_from_stop: "\<not> i < len \<Longrightarrow> sum_vectors_from i h v1 v2 v3 len = Some h"
  by (simp add: sum_vectors_from.simps)

lemma sum_vectors_from_step:
  "i < len \<Longrightarrow> h (v1 + i) = Some p \<Longrightarrow> h (v2 + i) = Some q \<Longrightarrow> h (v3 + i) = Some w \<Longrightarrow>
   sum_vectors_from i h v1 v2 v3 len =
   sum_vectors_from (Suc i) (h(v1 + i \<mapsto> fadd32 (fadd32 p q) w)) v1 v2 v3 len"
  by (subst sum_vectors_from.simps) simp

lemma sum_vectors_from_SomeE:
  assumes "sum_vectors_from i h v1 v2 v3 len = Some h'" and "i < len"
  obtains p q w where "h (v1 + i) = Some p" "h (v2 + i) = Some q" "h (v3 + i) = Some w"
    "sum_vectors_from (Suc i) (h(v1 + i \<mapsto> fadd32 (fadd32 p q) w)) v1 v2 v3 len = Some h'"
proof -
  from assms have
    "(case h (v1 + i) of None \<Rightarrow> None | Some p \<Rightarrow>
       (case h (v2 + i) of None \<Rightarrow> None | Some q \<Rightarrow>
         (case h (v3 + i) of None \<Rightarrow> None | Some w \<Rightarrow>
            sum_vectors_from (Suc i) (h(v1 + i \<mapsto> fadd32 (fadd32 p q) w)) v1 v2 v3 len))) = Some h'"
    by (subst (asm) sum_vectors_from.simps) simp
  then show thesis
    by (cases "h (v1 + i)"; cases "h (v2 + i)"; cases "h (v3 + i)") (simp_all add: that)
qed

lemma sum_vectors_from_dom:
  "sum_vectors_from i h v1 v2 v3 len = Some h' \<Longrightarrow> dom h' = dom h"
proof (induction i h v1 v2 v3 len rule: sum_vectors_from.induct)
  case (1 i h v1 v2 v3 len)
  show ?case
  proof (cases "i < len")
    case False
    with "1.prems" show ?thesis by (simp add: sum_vectors_from_stop)
  next
    case True
    from "1.prems" True obtain p q w where
      r: "h (v1 + i) = Some p" "h (v2 + i) = Some q" "h (v3 + i) = Some w" and
      s: "sum_vectors_from (Suc i) (h(v1 + i \<mapsto> fadd32 (fadd32 p q) w)) v1 v2 v3 len = Some h'"
      by (rule sum_vectors_from_SomeE)
    have "dom h' = dom (h(v1 + i \<mapsto> fadd32 (fadd32 p q) w))"
      using True r s by (rule "1.IH")
    also have "\<dots> = insert (v1 + i) (dom h)" by simp
    also have "\<dots> = dom h" using r(1) by (simp add: insert_absorb domI)
    finally show ?thesis .
  qed
qed

lemma sum_vectors_from_outside:
  "sum_vectors_from i h v1 v2 v3 len = Some h' \<Longrightarrow> \<forall>j. i \<le> j \<and> j < len \<longrightarrow> a \<noteq> v1 + j \<Longrightarrow> h' a = h a"
proof (induction i h v1 v2 v3 len rule: sum_vectors_from.induct)
  case (1 i h v1 v2 v3 len)
  show ?case
  proof (cases "i < len")
    case False
    with "1.prems" show ?thesis by (simp add: sum_vectors_from_stop)
  next
    case True
    from "1.prems"(1) True obtain p q w where
      r: "h (v1 + i) = Some p" "h (v2 + i) = Some q" "h (v3 + i) = Some w" and
      s: "sum_vectors_from (Suc i) (h(v1 + i \<mapsto> fadd32 (fadd32 p q) w)) v1 v2 v3 len = Some h'"
      by (rule sum_vectors_from_SomeE)
    from "1.prems"(2) have n: "\<forall>j. Suc i \<le> j \<and> j < len \<longrightarrow> a \<noteq> v1 + j" by simp
    have "h' a = (h(v1 + i \<mapsto> fadd32 (fadd32 p q) w)) a"
      using True r s n by (rule "1.IH")
    moreover from "1.prems"(2) True have "a \<noteq> v1 + i" by simp
    ultimately show ?thesis by simp
  qed
qed

lemma allocated_upd: "allocated h v len \<Longrightarrow> allocated (h(a \<mapsto> b)) v len"
  by (simp add: allocated_iff)

lemma sum_vectors_from_returns:
  "allocated h v1 len \<Longrightarrow> allocated h v2 len \<Longrightarrow> allocated h v3 len \<Longrightarrow>
   \<exists>h'. sum_vectors_from i h v1 v2 v3 len = Some h'"
proof (induction i h v1 v2 v3 len rule: sum_vectors_from.induct)
  case (1 i h v1 v2 v3 len)
  show ?case
  proof (cases "i < len")
    case False
    then show ?thesis by (simp add: sum_vectors_from_stop)
  next
    case True
    with "1.prems" obtain p q w where
      r: "h (v1 + i) = Some p" "h (v2 + i) = Some q" "h (v3 + i) = Some w"
      unfolding allocated_iff by blast
    let ?h = "h(v1 + i \<mapsto> fadd32 (fadd32 p q) w)"
    have "\<exists>h'. sum_vectors_from (Suc i) ?h v1 v2 v3 len = Some h'"
      using True r "1.prems" by (intro "1.IH" allocated_upd)
    then show ?thesis
      by (simp only: sum_vectors_from_step [OF True r])
  qed
qed

text \<open>running to k and then on to len\<close>
lemma sum_vectors_from_split:
  "sum_vectors_from i h v1 v2 v3 k = Some hk \<Longrightarrow> i \<le> k \<Longrightarrow> k \<le> len \<Longrightarrow>
   sum_vectors_from i h v1 v2 v3 len = sum_vectors_from k hk v1 v2 v3 len"
proof (induction i h v1 v2 v3 k rule: sum_vectors_from.induct)
  case (1 i h v1 v2 v3 k)
  show ?case
  proof (cases "i < k")
    case False
    with "1.prems" have "i = k" "hk = h" by (simp_all add: sum_vectors_from_stop)
    then show ?thesis by simp
  next
    case True
    from "1.prems"(1) True obtain p q w where
      r: "h (v1 + i) = Some p" "h (v2 + i) = Some q" "h (v3 + i) = Some w" and
      s: "sum_vectors_from (Suc i) (h(v1 + i \<mapsto> fadd32 (fadd32 p q) w)) v1 v2 v3 k = Some hk"
      by (rule sum_vectors_from_SomeE)
    from True have k: "Suc i \<le> k" by simp
    from True "1.prems"(3) have l: "i < len" by simp
    have "sum_vectors_from (Suc i) (h(v1 + i \<mapsto> fadd32 (fadd32 p q) w)) v1 v2 v3 len =
        sum_vectors_from k hk v1 v2 v3 len"
      using True r s k "1.prems"(3) by (rule "1.IH")
    then show ?thesis
      by (simp only: sum_vectors_from_step [OF l r])
  qed
qed

lemma allocated_mono: "allocated h v len \<Longrightarrow> k \<le> len \<Longrightarrow> allocated h v k"
  by (simp add: allocated_iff)

lemma sum_vectors_cell:
  assumes al: "allocated h v1 len" "allocated h v2 len" "allocated h v3 len"
    and i: "i < len"
  shows "\<exists>hi h' p q w. sum_vectors h v1 v2 v3 i = Some hi \<and> sum_vectors h v1 v2 v3 len = Some h' \<and>
      hi (v1 + i) = Some p \<and> hi (v2 + i) = Some q \<and> hi (v3 + i) = Some w \<and>
      h' (v1 + i) = Some (fadd32 (fadd32 p q) w)"
proof -
  from i have le: "i \<le> len" by simp
  from al le have "allocated h v1 i" "allocated h v2 i" "allocated h v3 i"
    by (blast intro: allocated_mono)+
  then obtain hi where hi: "sum_vectors_from 0 h v1 v2 v3 i = Some hi"
    using sum_vectors_from_returns by blast
  from al obtain h' where h': "sum_vectors_from 0 h v1 v2 v3 len = Some h'"
    using sum_vectors_from_returns by blast
  have d: "dom hi = dom h" using hi by (rule sum_vectors_from_dom)
  from al i have "v1 + i \<in> dom hi" "v2 + i \<in> dom hi" "v3 + i \<in> dom hi"
    unfolding allocated_iff d by blast+
  then obtain p q w where
    r: "hi (v1 + i) = Some p" "hi (v2 + i) = Some q" "hi (v3 + i) = Some w"
    by blast
  have "sum_vectors_from 0 h v1 v2 v3 len = sum_vectors_from i hi v1 v2 v3 len"
    using hi _ le by (rule sum_vectors_from_split) simp
  also have "\<dots> = sum_vectors_from (Suc i) (hi(v1 + i \<mapsto> fadd32 (fadd32 p q) w)) v1 v2 v3 len"
    using i r by (rule sum_vectors_from_step)
  finally have s: "sum_vectors_from (Suc i) (hi(v1 + i \<mapsto> fadd32 (fadd32 p q) w)) v1 v2 v3 len = Some h'"
    using h' by simp
  have "h' (v1 + i) = (hi(v1 + i \<mapsto> fadd32 (fadd32 p q) w)) (v1 + i)"
    using s by (rule sum_vectors_from_outside) simp
  then have "h' (v1 + i) = Some (fadd32 (fadd32 p q) w)" by simp
  with hi h' r show ?thesis unfolding sum_vectors_def by blast
qed

section \<open>Evaluation\<close>

text \<open>
  Equations that run the definitions on given inputs. The recursive ones are guarded by
  their conditions, so that they unfold only where the condition is decided.
\<close>

lemma dec_nat_eval: "n < 10 \<Longrightarrow> dec_nat n = [digit_char n]"
  "\<not> n < 10 \<Longrightarrow> dec_nat n = dec_nat (n div 10) @ [digit_char (n mod 10)]"
  by (simp_all add: dec_nat.simps)

lemma replicate_eval: "replicate 0 k = []" "n \<noteq> 0 \<Longrightarrow> replicate n k = k # replicate (n - 1) k"
  by (cases n; simp)+

lemma sum_vectors_from_eval:
  "\<not> i < len \<Longrightarrow> sum_vectors_from i h v1 v2 v3 len = Some h"
  "i < len \<Longrightarrow> sum_vectors_from i h v1 v2 v3 len =
     (case h (v1 + i) of None \<Rightarrow> None | Some p \<Rightarrow>
        (case h (v2 + i) of None \<Rightarrow> None | Some q \<Rightarrow>
           (case h (v3 + i) of None \<Rightarrow> None | Some w \<Rightarrow>
              sum_vectors_from (Suc i) (h(v1 + i \<mapsto> fadd32 (fadd32 p q) w)) v1 v2 v3 len)))"
  by (subst sum_vectors_from.simps, simp)+

lemma print_vector_from_eval:
  "\<not> i < len \<Longrightarrow> print_vector_from i h v1 len txt = Some txt"
  "i < len \<Longrightarrow> print_vector_from i h v1 len txt =
     (case h (v1 + i) of
        None \<Rightarrow> None
      | Some f \<Rightarrow>
          print_vector_from (Suc i) h v1 len
            (txt @ fmt_f (double_of_float f) @ (if i + 1 < len then '', '' else [])))"
  by (subst print_vector_from.simps, simp)+

lemmas fp_eval = fadd32_def fadd64_def binary32_def binary64_def round_fp_def round_half_even_def
  bitlen_eval with_sign_def Let_def

lemmas io_eval = replicate_eval nl_def digit_char_def dec_nat_eval fmt_d_def pad_zero_def isspace_def isdigit_def
  isxdigit_def tolower_def xdigit_val_def digits_value_def exponent_part_def scaled_def
  strto_dec_def strto_hex_def hex_start_def strtox_def strtof_def float_const_def double_const_def

lemmas main_eval = long_match_def getopt_long_def print_usage_def optstring_def long_options_def
  open_library_def vector_frame_def struct_frame_def finish_def dispatch_def main_def
  load_and_dispatch_def run_options_def
  sum_scalars_def sum_vectors_def sum_structs_def sum_vectors_from_eval print_vector_from_eval

text \<open>
  Some values of binary32 and some sums, as the format defines them: 0.1f is
  \<^verbatim>\<open>0x3DCCCCCD\<close>, 16777217 lies half-way and rounds to the even 16777216, the greatest
  finite value is \<open>(2^24 - 1) * 2^104\<close> and half a unit in the last place more overflows,
  the least subnormal is \<open>2^-149\<close>.
\<close>

lemma binary32_examples:
  "strtof ''0.1'' = Finite False 13421773 (- 27)"
  "strtof ''16777217'' = Finite False 8388608 1"
  "strtof ''3.4028235e38'' = Finite False 16777215 104"
  "strtof ''3.4028236e38'' = Infinity False"
  "strtof ''1e-45'' = Finite False 1 (- 149)"
  "strtof ''7e-46'' = Finite False 0 (- 149)"
  "strtof ''-0'' = Finite True 0 (- 149)"
  "fadd32 (Finite False 16777215 104) (Finite False 16777215 104) = Infinity False"
  "fadd32 (Finite False 16777215 104) (Finite False 8388608 79) = Finite False 16777215 104"
  "fadd32 (Finite False 16777215 104) (Finite False 8388608 80) = Infinity False"
  "fadd32 (Finite True 0 (- 149)) (Finite False 0 (- 149)) = Finite False 0 (- 149)"
  "fadd32 (Finite True 0 (- 149)) (Finite True 0 (- 149)) = Finite True 0 (- 149)"
  "fadd32 (strtof ''1.5'') (strtof ''-1.5'') = Finite False 0 (- 149)"
  "fadd32 (Finite False 1 (- 149)) (Finite False 8388607 (- 149)) = Finite False 8388608 (- 149)"
  "fadd32 (Infinity False) (Infinity True) = NaN"
  "fadd32 (Infinity True) (strtof ''1e38'') = Infinity True"
  by (simp_all add: fp_eval io_eval cong: let_weak_cong)

section \<open>The claims about the arithmetic core\<close>

lemma fadd_NaN_left: "fadd f NaN v = NaN"
  by simp

lemma fadd_NaN_right: "fadd f u NaN = NaN"
  by (cases u) simp_all

text \<open>
  C2. For all single-precision values a, b, c, finite or not, sum_scalars returns the
  IEEE-754 single-precision sum taken from left to right, (a + b) + c: a value w is the
  result of sum_scalars if and only if the standard allows some t as the sum of a and b
  and w as the sum of t and c, where for finite operands the sum that the standard allows
  is their exact real sum rounded to the nearest value of binary32, ties to even, and to
  an infinity from the overflow threshold on, and for other operands it is the NaN or
  the infinity of the rules for special values. It has no error condition: it is a total
  function, its result is a value of the single-precision format, and on a NaN among its
  arguments it returns a NaN.
\<close>

theorem sum_scalars_left_to_right:
  "(sum_scalars a b c = w \<longleftrightarrow>
      (\<exists>t. ieee_add binary32 a b t \<and> ieee_add binary32 t c w)) \<and>
   is_value binary32 (sum_scalars a b c) \<and>
   (a = NaN \<or> b = NaN \<or> c = NaN \<longrightarrow> sum_scalars a b c = NaN)"
proof (intro conjI)
  show "sum_scalars a b c = w \<longleftrightarrow> (\<exists>t. ieee_add binary32 a b t \<and> ieee_add binary32 t c w)"
    by (simp add: sum_scalars_def fadd32_ieee_add [symmetric])
  show "is_value binary32 (sum_scalars a b c)"
    unfolding sum_scalars_def fadd32_def by (rule fadd_is_value) (simp_all add: binary32_def)
  show "a = NaN \<or> b = NaN \<or> c = NaN \<longrightarrow> sum_scalars a b c = NaN"
    by (auto simp: sum_scalars_def fadd32_def fadd_NaN_left fadd_NaN_right)
qed

text \<open>
  On the operands of the scalar example, 1.2, 3.4 and 5.6 as \<^verbatim>\<open>float\<close>: the result
  10695476 * 2^-20 is the sum that the standard specifies, through an intermediate sum.
  And with a NaN in place of 3.4 the result is a NaN.
\<close>

theorem sum_scalars_left_to_right_witness:
  "sum_scalars (Finite False 10066330 (- 23)) (Finite False 14260634 (- 22)) (Finite False 11744051 (- 21)) =
     Finite False 10695476 (- 20) \<and>
   (\<exists>t. ieee_add binary32 (Finite False 10066330 (- 23)) (Finite False 14260634 (- 22)) t \<and>
      ieee_add binary32 t (Finite False 11744051 (- 21)) (Finite False 10695476 (- 20))) \<and>
   is_value binary32 (Finite False 10695476 (- 20)) \<and>
   sum_scalars (Finite False 10066330 (- 23)) NaN (Finite False 11744051 (- 21)) = NaN"
proof -
  have v: "sum_scalars (Finite False 10066330 (- 23)) (Finite False 14260634 (- 22)) (Finite False 11744051 (- 21)) =
      Finite False 10695476 (- 20)"
    by (simp add: fp_eval sum_scalars_def cong: let_weak_cong)
  note a = sum_scalars_left_to_right [of "Finite False 10066330 (- 23)" "Finite False 14260634 (- 22)"
      "Finite False 11744051 (- 21)" "Finite False 10695476 (- 20)"]
  note b = sum_scalars_left_to_right [of "Finite False 10066330 (- 23)" NaN
      "Finite False 11744051 (- 21)" NaN]
  from a v have "\<exists>t. ieee_add binary32 (Finite False 10066330 (- 23)) (Finite False 14260634 (- 22)) t \<and>
      ieee_add binary32 t (Finite False 11744051 (- 21)) (Finite False 10695476 (- 20))"
    by blast
  moreover from a have "is_value binary32 (Finite False 10695476 (- 20))"
    unfolding v by blast
  moreover from b have "sum_scalars (Finite False 10066330 (- 23)) NaN (Finite False 11744051 (- 21)) = NaN"
    by blast
  ultimately show ?thesis using v by blast
qed

text \<open>
  The intermediate sum of the example is 9646900 * 2^-21: the exact sum of 1.2 and 3.4
  as \<^verbatim>\<open>float\<close> is 19293799 * 2^-22, half-way between the values 9646899 * 2^-21 and
  9646900 * 2^-21 of the format, and the even significand is taken.
\<close>

lemma sum_scalars_example_steps:
  "ieee_add binary32 (Finite False 10066330 (- 23)) (Finite False 14260634 (- 22)) (Finite False 9646900 (- 21))"
  "ieee_add binary32 (Finite False 9646900 (- 21)) (Finite False 11744051 (- 21)) (Finite False 10695476 (- 20))"
  unfolding fadd32_ieee_add [symmetric]
  by (simp_all add: fp_eval cong: let_weak_cong)

lemma sum_scalars_example_exact:
  "valof (Finite False 10066330 (- 23)) + valof (Finite False 14260634 (- 22)) = 19293799 * 2 powi (- 22)"
  "valof (Finite False 9646900 (- 21)) = 19293800 * 2 powi (- 22)"
  "valof (Finite False 9646899 (- 21)) = 19293798 * 2 powi (- 22)"
  by (simp_all add: valof_def power_int_minus)

text \<open>
  The order matters: on the three values of the scalar example the sum from the right,
  a + (b + c), is another value, and prints as 10.200000.
\<close>

lemma sum_scalars_order_matters:
  "fadd32 (strtof ''1.2'') (fadd32 (strtof ''3.4'') (strtof ''5.6'')) = Finite False 10695475 (- 20)"
  "fmt_f (double_of_float (Finite False 10695475 (- 20))) = ''10.200000''"
  "sum_scalars (strtof ''1.2'') (strtof ''3.4'') (strtof ''5.6'') \<noteq>
     fadd32 (strtof ''1.2'') (fadd32 (strtof ''3.4'') (strtof ''5.6''))"
  by (simp_all add: fp_eval io_eval sum_scalars_def cong: let_weak_cong)

lemma sum_vectors_len0: "sum_vectors h v1 v2 v3 0 = Some h"
  by (simp add: sum_vectors_def sum_vectors_from_stop)

lemma sum_vectors_prefix_cell:
  assumes hi: "sum_vectors h v1 v2 v3 i = Some hi"
    and n: "\<forall>j<i. a \<noteq> v1 + j"
  shows "hi a = h a"
  using hi [unfolded sum_vectors_def] by (rule sum_vectors_from_outside) (simp add: n)

lemma allocated_0: "allocated h v 0"
  by (simp add: allocated_iff)

lemma allocated_Suc: "allocated h v (Suc n) = (allocated h v n \<and> v + n \<in> dom h)"
  by (auto simp: allocated_iff less_Suc_eq)

lemma vector_frame_allocated:
  "allocated vector_frame 0 3" "allocated vector_frame 3 3" "allocated vector_frame 6 3"
  by (simp_all add: numeral_3_eq_3 allocated_Suc allocated_0 vector_frame_def)

text \<open>
  C3. For every length len and three sequences of at least len elements each, the call
  returns, and it has set each v1[i] with i < len to v1[i] + v2[i] + v3[i], the sum from
  left to right of the three values found at index i when the loop reaches it. Where no
  element read from v2 or v3 is an element of v1 written earlier (separate arrays, or the
  same array passed twice), these are the values before the call. With len = 0 memory is
  left as it was.
\<close>

theorem sum_vectors_elementwise:
  assumes al: "allocated h v1 len" "allocated h v2 len" "allocated h v3 len"
  shows "\<exists>h'. sum_vectors h v1 v2 v3 len = Some h' \<and>
      (\<forall>i<len. \<exists>hi p q w. sum_vectors h v1 v2 v3 i = Some hi \<and>
          hi (v1 + i) = Some p \<and> hi (v2 + i) = Some q \<and> hi (v3 + i) = Some w \<and>
          h' (v1 + i) = Some (fadd32 (fadd32 p q) w)) \<and>
      ((\<forall>i<len. \<forall>j<i. v2 + i \<noteq> v1 + j \<and> v3 + i \<noteq> v1 + j) \<longrightarrow>
       (\<forall>i<len. \<exists>p q w. h (v1 + i) = Some p \<and> h (v2 + i) = Some q \<and> h (v3 + i) = Some w \<and>
          h' (v1 + i) = Some (fadd32 (fadd32 p q) w))) \<and>
      (len = 0 \<longrightarrow> h' = h)"
proof -
  from al obtain h' where h': "sum_vectors h v1 v2 v3 len = Some h'"
    unfolding sum_vectors_def using sum_vectors_from_returns by blast
  have cell: "\<exists>hi p q w. sum_vectors h v1 v2 v3 i = Some hi \<and>
          hi (v1 + i) = Some p \<and> hi (v2 + i) = Some q \<and> hi (v3 + i) = Some w \<and>
          h' (v1 + i) = Some (fadd32 (fadd32 p q) w)" if "i < len" for i
  proof -
    from sum_vectors_cell [OF al that] obtain hi h'' p q w where
      c: "sum_vectors h v1 v2 v3 i = Some hi" "sum_vectors h v1 v2 v3 len = Some h''"
        "hi (v1 + i) = Some p" "hi (v2 + i) = Some q" "hi (v3 + i) = Some w"
        "h'' (v1 + i) = Some (fadd32 (fadd32 p q) w)" by blast
    from c(2) h' have "h'' = h'" by simp
    with c show ?thesis by blast
  qed
  have sep: "\<exists>p q w. h (v1 + i) = Some p \<and> h (v2 + i) = Some q \<and> h (v3 + i) = Some w \<and>
          h' (v1 + i) = Some (fadd32 (fadd32 p q) w)"
    if i: "i < len" and ni: "\<forall>i<len. \<forall>j<i. v2 + i \<noteq> v1 + j \<and> v3 + i \<noteq> v1 + j" for i
  proof -
    from cell [OF i] obtain hi p q w where
      hi: "sum_vectors h v1 v2 v3 i = Some hi" and
      r: "hi (v1 + i) = Some p" "hi (v2 + i) = Some q" "hi (v3 + i) = Some w" and
      f: "h' (v1 + i) = Some (fadd32 (fadd32 p q) w)" by blast
    have "hi (v1 + i) = h (v1 + i)" using hi by (rule sum_vectors_prefix_cell) simp
    moreover have "hi (v2 + i) = h (v2 + i)"
      using hi by (rule sum_vectors_prefix_cell) (use i ni in blast)
    moreover have "hi (v3 + i) = h (v3 + i)"
      using hi by (rule sum_vectors_prefix_cell) (use i ni in blast)
    ultimately have "h (v1 + i) = Some p" "h (v2 + i) = Some q" "h (v3 + i) = Some w"
      using r by simp_all
    with f show ?thesis by blast
  qed
  have zero: "h' = h" if "len = 0"
    using h' that by (simp add: sum_vectors_len0)
  show ?thesis
  proof (rule exI [of _ h'], intro conjI)
    show "sum_vectors h v1 v2 v3 len = Some h'" by (rule h')
  next
    show "\<forall>i<len. \<exists>hi p q w. sum_vectors h v1 v2 v3 i = Some hi \<and>
          hi (v1 + i) = Some p \<and> hi (v2 + i) = Some q \<and> hi (v3 + i) = Some w \<and>
          h' (v1 + i) = Some (fadd32 (fadd32 p q) w)"
      by (intro allI impI cell)
  next
    show "(\<forall>i<len. \<forall>j<i. v2 + i \<noteq> v1 + j \<and> v3 + i \<noteq> v1 + j) \<longrightarrow>
       (\<forall>i<len. \<exists>p q w. h (v1 + i) = Some p \<and> h (v2 + i) = Some q \<and> h (v3 + i) = Some w \<and>
          h' (v1 + i) = Some (fadd32 (fadd32 p q) w))"
      using sep by blast
  next
    show "len = 0 \<longrightarrow> h' = h"
      by (intro impI zero)
  qed
qed

theorem sum_vectors_elementwise_witness:
  "allocated vector_frame 0 3 \<and> allocated vector_frame 3 3 \<and> allocated vector_frame 6 3 \<and>
   (\<exists>h'. sum_vectors vector_frame 0 3 6 3 = Some h' \<and>
      h' 0 = Some (fadd32 (fadd32 (float_const ''1.0'') (float_const ''0.5'')) (float_const ''0.1'')) \<and>
      h' 1 = Some (fadd32 (fadd32 (float_const ''2.0'') (float_const ''0.5'')) (float_const ''0.2'')) \<and>
      h' 2 = Some (fadd32 (fadd32 (float_const ''3.0'') (float_const ''0.5'')) (float_const ''0.3'')))"
proof -
  from sum_vectors_elementwise [OF vector_frame_allocated] obtain h' where
    r: "sum_vectors vector_frame 0 3 6 3 = Some h'" and
    s: "(\<forall>i<3. \<forall>j<i. (3::nat) + i \<noteq> 0 + j \<and> (6::nat) + i \<noteq> 0 + j) \<longrightarrow>
       (\<forall>i<3. \<exists>p q w. vector_frame (0 + i) = Some p \<and> vector_frame (3 + i) = Some q \<and>
          vector_frame (6 + i) = Some w \<and> h' (0 + i) = Some (fadd32 (fadd32 p q) w))"
    by blast
  have "\<forall>i<3. \<forall>j<i. (3::nat) + i \<noteq> 0 + j \<and> (6::nat) + i \<noteq> 0 + j" by simp
  with s have t: "\<exists>p q w. vector_frame (0 + i) = Some p \<and> vector_frame (3 + i) = Some q \<and>
          vector_frame (6 + i) = Some w \<and> h' (0 + i) = Some (fadd32 (fadd32 p q) w)"
    if "i < 3" for i using that by blast
  have "h' 0 = Some (fadd32 (fadd32 (float_const ''1.0'') (float_const ''0.5'')) (float_const ''0.1''))"
    using t [of 0] by (simp add: vector_frame_def)
  moreover
  have "h' 1 = Some (fadd32 (fadd32 (float_const ''2.0'') (float_const ''0.5'')) (float_const ''0.2''))"
    using t [of 1] by (simp add: vector_frame_def)
  moreover
  have "h' 2 = Some (fadd32 (fadd32 (float_const ''3.0'') (float_const ''0.5'')) (float_const ''0.3''))"
    using t [of 2] by (auto simp: vector_frame_def numeral_2_eq_2)
  ultimately show ?thesis using r vector_frame_allocated by blast
qed

text \<open>
  C4 (as amended). For every call with three sequences of at least len elements, the
  call returns and has written only into v1[0], ..., v1[len - 1]: every other cell of
  memory holds what it held before. So v2 is unchanged when none of its first len
  elements is one of those cells, and so is v3; and every element of v1 at an index
  from len on is unchanged.
\<close>

theorem sum_vectors_frame:
  assumes al: "allocated h v1 len" "allocated h v2 len" "allocated h v3 len"
  shows "\<exists>h'. sum_vectors h v1 v2 v3 len = Some h' \<and>
      (\<forall>a. (\<forall>j<len. a \<noteq> v1 + j) \<longrightarrow> h' a = h a) \<and>
      ((\<forall>i<len. \<forall>j<len. v2 + i \<noteq> v1 + j) \<longrightarrow> (\<forall>i<len. h' (v2 + i) = h (v2 + i))) \<and>
      ((\<forall>i<len. \<forall>j<len. v3 + i \<noteq> v1 + j) \<longrightarrow> (\<forall>i<len. h' (v3 + i) = h (v3 + i))) \<and>
      (\<forall>k\<ge>len. h' (v1 + k) = h (v1 + k))"
proof -
  from al obtain h' where h': "sum_vectors h v1 v2 v3 len = Some h'"
    unfolding sum_vectors_def using sum_vectors_from_returns by blast
  have out: "h' a = h a" if "\<forall>j<len. a \<noteq> v1 + j" for a
    using h' that by (rule sum_vectors_prefix_cell)
  have "\<forall>k\<ge>len. h' (v1 + k) = h (v1 + k)"
    by (intro allI impI out) simp
  moreover have "\<forall>i<len. h' (v2 + i) = h (v2 + i)" if "\<forall>i<len. \<forall>j<len. v2 + i \<noteq> v1 + j"
    using that by (intro allI impI out) simp
  moreover have "\<forall>i<len. h' (v3 + i) = h (v3 + i)" if "\<forall>i<len. \<forall>j<len. v3 + i \<noteq> v1 + j"
    using that by (intro allI impI out) simp
  ultimately show ?thesis using h' out by (intro exI [of _ h']) simp
qed

theorem sum_vectors_frame_witness:
  "allocated vector_frame 0 3 \<and> allocated vector_frame 3 3 \<and> allocated vector_frame 6 3 \<and>
   (\<exists>h'. sum_vectors vector_frame 0 3 6 3 = Some h' \<and>
      h' 3 = vector_frame 3 \<and> h' 4 = vector_frame 4 \<and> h' 5 = vector_frame 5 \<and>
      h' 6 = vector_frame 6 \<and> h' 7 = vector_frame 7 \<and> h' 8 = vector_frame 8 \<and>
      h' 9 = vector_frame 9)"
proof -
  from sum_vectors_frame [OF vector_frame_allocated] obtain h' where
    r: "sum_vectors vector_frame 0 3 6 3 = Some h'" and
    s: "\<forall>a. (\<forall>j<3. a \<noteq> 0 + j) \<longrightarrow> h' a = vector_frame a"
    by blast
  have "h' a = vector_frame a" if "3 \<le> a" for a
    using s that by simp
  with r vector_frame_allocated show ?thesis by simp
qed

text \<open>
  C4 as stated fails when v2 is v1 itself: the call on one array of one element 1.0,
  passed for v1, v2 and v3, leaves 3.0 in v2[0].
\<close>

theorem sum_vectors_frame_counterexample:
  "allocated [0 \<mapsto> float_const ''1.0''] 0 1 \<and>
   sum_vectors [0 \<mapsto> float_const ''1.0''] 0 0 0 1 = Some [0 \<mapsto> float_const ''3.0''] \<and>
   [(0::addr) \<mapsto> float_const ''3.0''] 0 \<noteq> [(0::addr) \<mapsto> float_const ''1.0''] 0"
  by (simp add: allocated_iff fp_eval io_eval main_eval cong: let_weak_cong)



section \<open>Runs of main with the built-in functions\<close>

lemma getopt_mode: "getopt_long [''--mode'', m] optstring long_options = [(CHR ''m'', m)]"
  by (simp add: getopt_long_def optstring_def long_options_def long_match_def
      cong: let_weak_cong)

lemma run_vector_mode:
  "main env prog [''--mode'', ''vector''] =
     Some \<lparr>exit_status = 0,
           stdout = ''sum_vectors result: [1.600000, 2.700000, 3.800000]'' @ nl,
           stderr = [], trace = [Call ''sum_vectors'']\<rparr>"
  by (simp add: fp_eval io_eval main_eval cong: let_weak_cong)

lemma run_scalar_mode:
  "main env prog [''--mode'', ''scalar'', ''--a'', ''1.2'', ''--b'', ''3.4'', ''--c'', ''5.6''] =
     Some \<lparr>exit_status = 0,
           stdout = ''sum_scalars(1.200000, 3.400000, 5.600000) = 10.200001'' @ nl,
           stderr = [], trace = [Call ''sum_scalars'']\<rparr>"
  by (simp add: fp_eval io_eval main_eval cong: let_weak_cong)

lemma run_struct_mode:
  "main env prog [''--mode'', ''struct''] =
     Some \<lparr>exit_status = 0,
           stdout = ''sum_structs: x=5, y=4.000000, z=4.000000'' @ nl,
           stderr = [], trace = [Call ''sum_structs'']\<rparr>"
  by (simp add: fp_eval io_eval main_eval cong: let_weak_cong)

text \<open>
  The two roundings in \<^verbatim>\<open>1.2f + 3.4f + 5.6f\<close>: both exact sums lie half-way between
  two values of the format, and both ties go up to the even significand.
\<close>

lemma scalar_example_sum:
  "strtof ''1.2'' = Finite False 10066330 (- 23)"
  "strtof ''3.4'' = Finite False 14260634 (- 22)"
  "strtof ''5.6'' = Finite False 11744051 (- 21)"
  "fadd32 (strtof ''1.2'') (strtof ''3.4'') = Finite False 9646900 (- 21)"
  "sum_scalars (strtof ''1.2'') (strtof ''3.4'') (strtof ''5.6'') = Finite False 10695476 (- 20)"
  by (simp_all add: fp_eval io_eval sum_scalars_def cong: let_weak_cong)

section \<open>The claims about whole runs\<close>

text \<open>
  C1 (as amended). In vector mode with the default options, main applies the built-in
  sum_vectors to the three arrays [1,2,3], [0.5,0.5,0.5], [0.1,0.2,0.3] of its frame and
  prints \<^verbatim>\<open>sum_vectors result: [1.600000, 2.700000, 3.800000]\<close>, then returns 0. The third
  element is 3 + 0.5 + 0.3, which is 3.8 and not the 3.4 of the claim.
\<close>

theorem vector_mode_output:
  "main env prog [''--mode'', ''vector''] =
     Some \<lparr>exit_status = 0,
           stdout = ''sum_vectors result: [1.600000, 2.700000, 3.800000]'' @ nl,
           stderr = [], trace = [Call ''sum_vectors'']\<rparr> \<and>
   sum_vectors vector_frame 0 3 6 3 \<noteq> None \<and>
   map (\<lambda>f. fmt_f (double_of_float f)) (map (the \<circ> vector_frame) [0, 1, 2, 3, 4, 5, 6, 7, 8]) =
     [''1.000000'', ''2.000000'', ''3.000000'', ''0.500000'', ''0.500000'', ''0.500000'',
      ''0.100000'', ''0.200000'', ''0.300000'']"
proof -
  have "sum_vectors vector_frame 0 3 6 3 \<noteq> None"
    by (simp add: fp_eval io_eval main_eval cong: let_weak_cong)
  moreover have
    "map (\<lambda>f. fmt_f (double_of_float f)) (map (the \<circ> vector_frame) [0, 1, 2, 3, 4, 5, 6, 7, 8]) =
     [''1.000000'', ''2.000000'', ''3.000000'', ''0.500000'', ''0.500000'', ''0.500000'',
      ''0.100000'', ''0.200000'', ''0.300000'']"
    by (simp add: fp_eval io_eval main_eval cong: let_weak_cong)
  ultimately show ?thesis using run_vector_mode by blast
qed

text \<open>
  C1 as stated fails: with no library about, the text printed in vector mode is not the
  line of the claim, with or without the newline.
\<close>

theorem vector_mode_output_counterexample:
  "stdout (the (main no_library ''binary_playground'' [''--mode'', ''vector''])) \<noteq>
     ''sum_vectors result: [1.600000, 2.700000, 3.400000]'' @ nl \<and>
   stdout (the (main no_library ''binary_playground'' [''--mode'', ''vector''])) \<noteq>
     ''sum_vectors result: [1.600000, 2.700000, 3.400000]''"
  by (simp add: run_vector_mode nl_def)

text \<open>
  C6 (as amended). Invoked as \<^verbatim>\<open>--mode scalar --a 1.2 --b 3.4 --c 5.6\<close>, main prints
  \<^verbatim>\<open>sum_scalars(1.200000, 3.400000, 5.600000) = 10.200001\<close> and returns 0: the sum of
  the three single-precision values is 10.2000007629..., which \<^verbatim>\<open>%f\<close> prints with a
  last digit 1.
\<close>

theorem scalar_mode_output:
  "main env prog [''--mode'', ''scalar'', ''--a'', ''1.2'', ''--b'', ''3.4'', ''--c'', ''5.6''] =
     Some \<lparr>exit_status = 0,
           stdout = ''sum_scalars(1.200000, 3.400000, 5.600000) = 10.200001'' @ nl,
           stderr = [], trace = [Call ''sum_scalars'']\<rparr>"
  by (rule run_scalar_mode)

text \<open>C6 as stated fails: the line printed is not the line of the claim.\<close>

theorem scalar_mode_output_counterexample:
  "stdout (the (main no_library ''binary_playground''
      [''--mode'', ''scalar'', ''--a'', ''1.2'', ''--b'', ''3.4'', ''--c'', ''5.6''])) \<noteq>
     ''sum_scalars(1.200000, 3.400000, 5.600000) = 10.200000'' @ nl \<and>
   stdout (the (main no_library ''binary_playground''
      [''--mode'', ''scalar'', ''--a'', ''1.2'', ''--b'', ''3.4'', ''--c'', ''5.6''])) \<noteq>
     ''sum_scalars(1.200000, 3.400000, 5.600000) = 10.200000''"
  by (simp add: run_scalar_mode nl_def)

section \<open>The claims about the dispatcher\<close>

subsection \<open>Unknown mode\<close>

lemma dispatch_unknown:
  assumes "m \<noteq> ''scalar''" and "m \<noteq> ''vector''" and "m \<noteq> ''struct''"
  shows "dispatch prog m u a b c handle f1 f2 f3 tr =
     Some \<lparr>exit_status = 1, stdout = print_usage prog,
           stderr = ''Unknown mode '' @ [CHR 0x27] @ m @ [CHR 0x27] @ nl,
           trace = tr @ (if handle \<noteq> None then [Dlclose] else [])\<rparr>"
  using assms by (simp add: dispatch_def)

lemma open_library_no_call:
  "open_library env = (r, tr) \<Longrightarrow> Call n \<notin> set tr"
  by (auto simp: open_library_def split: option.splits)

text \<open>
  C7. For every mode m that is none of scalar, vector, struct: invoked as
  \<^verbatim>\<open>--mode m\<close>, main writes the error message to standard error and the usage line to
  standard output, calls none of the three functions and returns 1. The same holds on
  every command line whose options leave m as the mode, provided the library, if asked
  for, can be opened (otherwise main has left before the dispatch).
\<close>

theorem unknown_mode_rejected:
  assumes m: "m \<noteq> ''scalar''" "m \<noteq> ''vector''" "m \<noteq> ''struct''"
  shows "main env prog [''--mode'', m] =
       Some \<lparr>exit_status = 1, stdout = print_usage prog,
             stderr = ''Unknown mode '' @ [CHR 0x27] @ m @ [CHR 0x27] @ nl, trace = []\<rparr> \<and>
     (\<forall>args u a b c.
        parse_options ''scalar'' False (float_const ''1.0'') (float_const ''2.0'')
          (float_const ''3.0'') (getopt_long args optstring long_options) = Run m u a b c \<and>
        (u \<longrightarrow> fst (open_library env) \<noteq> None) \<longrightarrow>
        (\<exists>out. main env prog args = Some out \<and> exit_status out = 1 \<and>
           stdout out = print_usage prog \<and>
           stderr out = ''Unknown mode '' @ [CHR 0x27] @ m @ [CHR 0x27] @ nl \<and>
           (\<forall>n. Call n \<notin> set (trace out))))"
proof (intro conjI allI impI)
  show "main env prog [''--mode'', m] =
       Some \<lparr>exit_status = 1, stdout = print_usage prog,
             stderr = ''Unknown mode '' @ [CHR 0x27] @ m @ [CHR 0x27] @ nl, trace = []\<rparr>"
    by (simp add: main_def run_options_def getopt_mode load_and_dispatch_def dispatch_unknown [OF m])
next
  fix args u a b c
  assume h: "parse_options ''scalar'' False (float_const ''1.0'') (float_const ''2.0'')
          (float_const ''3.0'') (getopt_long args optstring long_options) = Run m u a b c \<and>
        (u \<longrightarrow> fst (open_library env) \<noteq> None)"
  show "\<exists>out. main env prog args = Some out \<and> exit_status out = 1 \<and>
           stdout out = print_usage prog \<and>
           stderr out = ''Unknown mode '' @ [CHR 0x27] @ m @ [CHR 0x27] @ nl \<and>
           (\<forall>n. Call n \<notin> set (trace out))"
  proof (cases u)
    case False
    with h show ?thesis
      by (simp add: main_def run_options_def load_and_dispatch_def dispatch_unknown [OF m])
  next
    case True
    with h obtain lib tr where o: "open_library env = (Some lib, tr)"
      by (cases "open_library env") auto
    from o have "\<forall>n. Call n \<notin> set tr" by (blast dest: open_library_no_call)
    with h True o show ?thesis
      by (simp add: main_def run_options_def load_and_dispatch_def dispatch_unknown [OF m])
  qed
qed

lemma getopt_use_lib_bogus:
  "getopt_long [''--use-lib'', ''--mode'', ''bogus''] optstring long_options =
     [(CHR ''u'', []), (CHR ''m'', ''bogus'')]"
  by (simp add: getopt_long_def optstring_def long_options_def long_match_def cong: let_weak_cong)

theorem unknown_mode_rejected_witness:
  "''bogus'' \<noteq> ''scalar'' \<and> ''bogus'' \<noteq> ''vector'' \<and> ''bogus'' \<noteq> ''struct'' \<and>
   main no_library ''binary_playground'' [''--mode'', ''bogus''] =
     Some \<lparr>exit_status = 1, stdout = print_usage ''binary_playground'',
           stderr = ''Unknown mode '' @ [CHR 0x27] @ ''bogus'' @ [CHR 0x27] @ nl, trace = []\<rparr> \<and>
   (\<exists>out. main linux_library ''binary_playground'' [''--use-lib'', ''--mode'', ''bogus''] = Some out \<and>
      exit_status out = 1 \<and> stdout out = print_usage ''binary_playground'' \<and>
      stderr out = ''Unknown mode '' @ [CHR 0x27] @ ''bogus'' @ [CHR 0x27] @ nl \<and>
      (\<forall>n. Call n \<notin> set (trace out)))"
proof -
  have ne: "''bogus'' \<noteq> ''scalar''" "''bogus'' \<noteq> ''vector''" "''bogus'' \<noteq> ''struct''"
    by simp_all
  have p: "parse_options ''scalar'' False (float_const ''1.0'') (float_const ''2.0'')
      (float_const ''3.0'')
      (getopt_long [''--use-lib'', ''--mode'', ''bogus''] optstring long_options) =
    Run ''bogus'' True (float_const ''1.0'') (float_const ''2.0'') (float_const ''3.0'')"
    by (simp add: getopt_use_lib_bogus)
  have o: "fst (open_library linux_library) \<noteq> None"
    by (simp add: open_library_def linux_library_def)
  from unknown_mode_rejected [OF ne, of no_library "''binary_playground''"]
  have 1: "main no_library ''binary_playground'' [''--mode'', ''bogus''] =
     Some \<lparr>exit_status = 1, stdout = print_usage ''binary_playground'',
           stderr = ''Unknown mode '' @ [CHR 0x27] @ ''bogus'' @ [CHR 0x27] @ nl, trace = []\<rparr>"
    by blast
  from unknown_mode_rejected [OF ne, of linux_library "''binary_playground''"] p o
  have 2: "\<exists>out. main linux_library ''binary_playground'' [''--use-lib'', ''--mode'', ''bogus''] = Some out \<and>
      exit_status out = 1 \<and> stdout out = print_usage ''binary_playground'' \<and>
      stderr out = ''Unknown mode '' @ [CHR 0x27] @ ''bogus'' @ [CHR 0x27] @ nl \<and>
      (\<forall>n. Call n \<notin> set (trace out))"
    by blast
  from ne 1 2 show ?thesis by blast
qed

subsection \<open>Release of the library handle\<close>

lemma dispatch_trace:
  assumes "dispatch prog m u a b c handle f1 f2 f3 tr = Some out"
  shows "\<exists>cs. trace out = tr @ cs @ (if handle \<noteq> None then [Dlclose] else []) \<and>
     (cs = [] \<or> (\<exists>n. cs = [Call n]))"
proof -
  consider "m = ''scalar''" | "m = ''vector''" | "m = ''struct''"
    | "m \<noteq> ''scalar''" "m \<noteq> ''vector''" "m \<noteq> ''struct''" by blast
  then show ?thesis
  proof cases
    case 1
    with assms show ?thesis
      by (auto simp: dispatch_def finish_def split: option.splits if_splits)
  next
    case 2
    with assms show ?thesis
      by (auto simp: dispatch_def finish_def split: option.splits if_splits)
  next
    case 3
    with assms show ?thesis
      by (auto simp: dispatch_def finish_def split: option.splits if_splits prod.splits)
  next
    case 4
    with assms show ?thesis
      by (auto simp: dispatch_unknown)
  qed
qed

lemma count_list_append: "count_list (es @ fs) e = count_list es e + count_list fs e"
  by (induction es) simp_all

lemma open_library_trace:
  assumes "open_library env = (r, tr)"
  shows "Dlclose \<notin> set tr \<and> tr \<noteq> [] \<and> ((\<exists>e\<in>set tr. acquired e) \<longleftrightarrow> r \<noteq> None)"
proof (cases "dlopen env ''./libbinary_playground.dylib''")
  case None
  with assms have "r = dlopen env ''./libbinary_playground.so''"
    "tr = [Dlopen ''./libbinary_playground.dylib'' False,
           Dlopen ''./libbinary_playground.so'' (r \<noteq> None)]"
    by (auto simp: open_library_def)
  then show ?thesis by auto
next
  case (Some lib)
  with assms have "r = Some lib" "tr = [Dlopen ''./libbinary_playground.dylib'' True]"
    by (simp_all add: open_library_def)
  then show ?thesis by simp
qed

lemma count_list_0: "e \<notin> set es \<Longrightarrow> count_list es e = 0"
  by (induction es) auto

lemma load_and_dispatch_trace:
  assumes "load_and_dispatch env prog m u a b c = Some out"
  shows "count_list (trace out) Dlclose = (if \<exists>e\<in>set (trace out). acquired e then 1 else 0) \<and>
     ((\<exists>e\<in>set (trace out). acquired e) \<longrightarrow> last (trace out) = Dlclose)"
proof (cases u)
  case False
  with assms have "dispatch prog m False a b c None None None None [] = Some out"
    by (simp add: load_and_dispatch_def)
  from dispatch_trace [OF this] show ?thesis by auto
next
  case True
  obtain r tr where o: "open_library env = (r, tr)" by (cases "open_library env")
  from open_library_trace [OF o] have
    t: "Dlclose \<notin> set tr" "tr \<noteq> []" "(\<exists>e\<in>set tr. acquired e) \<longleftrightarrow> r \<noteq> None" by blast+
  show ?thesis
  proof (cases r)
    case None
    with assms True o have "trace out = tr"
      by (auto simp: load_and_dispatch_def)
    with t None show ?thesis by (simp add: count_list_0)
  next
    case (Some lib)
    let ?tr = "tr @ [Dlsym ''sum_scalars'', Dlsym ''sum_vectors'', Dlsym ''sum_structs'']"
    from assms True o Some have
      "dispatch prog m True a b c (Some lib) (sym_sum_scalars lib) (sym_sum_vectors lib)
         (sym_sum_structs lib) ?tr = Some out"
      by (simp add: load_and_dispatch_def)
    from dispatch_trace [OF this] obtain cs where
      c: "trace out = ?tr @ cs @ [Dlclose]" "cs = [] \<or> (\<exists>n. cs = [Call n])" by auto
    from t Some have "\<exists>e\<in>set (trace out). acquired e" unfolding c(1) by auto
    moreover from c t have "count_list (trace out) Dlclose = 1"
      by (auto simp: count_list_append count_list_0)
    moreover from c have "last (trace out) = Dlclose" by simp
    ultimately show ?thesis by simp
  qed
qed

text \<open>
  C8. On every run in which main returns: if a call of dlopen gave a handle, dlclose
  is called exactly once, and it is the last thing main does before it returns; if no
  handle was acquired dlclose is not called.
\<close>

theorem handle_released:
  assumes "main env prog args = Some out"
  shows "count_list (trace out) Dlclose = (if \<exists>e\<in>set (trace out). acquired e then 1 else 0) \<and>
     ((\<exists>e\<in>set (trace out). acquired e) \<longrightarrow> last (trace out) = Dlclose)"
proof (cases "parse_options ''scalar'' False (float_const ''1.0'') (float_const ''2.0'')
    (float_const ''3.0'') (getopt_long args optstring long_options)")
  case (Exit n)
  with assms have "trace out = []"
    by (auto simp: main_def run_options_def)
  then show ?thesis by simp
next
  case (Run m u a b c)
  with assms have "load_and_dispatch env prog m u a b c = Some out"
    by (simp add: main_def run_options_def)
  then show ?thesis by (rule load_and_dispatch_trace)
qed

lemma run_with_library:
  "main linux_library ''binary_playground'' [''--use-lib'', ''--mode'', ''struct''] =
     Some \<lparr>exit_status = 0, stdout = ''sum_structs: x=5, y=4.000000, z=4.000000'' @ nl,
           stderr = [],
           trace = [Dlopen ''./libbinary_playground.dylib'' False,
                    Dlopen ''./libbinary_playground.so'' True,
                    Dlsym ''sum_scalars'', Dlsym ''sum_vectors'', Dlsym ''sum_structs'',
                    Call ''sum_structs'', Dlclose]\<rparr>"
  by (simp add: fp_eval io_eval main_eval linux_library_def own_library_def cong: let_weak_cong)

theorem handle_released_witness:
  "main linux_library ''binary_playground'' [''--use-lib'', ''--mode'', ''struct''] =
     Some \<lparr>exit_status = 0, stdout = ''sum_structs: x=5, y=4.000000, z=4.000000'' @ nl,
           stderr = [],
           trace = [Dlopen ''./libbinary_playground.dylib'' False,
                    Dlopen ''./libbinary_playground.so'' True,
                    Dlsym ''sum_scalars'', Dlsym ''sum_vectors'', Dlsym ''sum_structs'',
                    Call ''sum_structs'', Dlclose]\<rparr> \<and>
   count_list [Dlopen ''./libbinary_playground.dylib'' False,
               Dlopen ''./libbinary_playground.so'' True,
               Dlsym ''sum_scalars'', Dlsym ''sum_vectors'', Dlsym ''sum_structs'',
               Call ''sum_structs'', Dlclose] Dlclose = 1"
  using handle_released [OF run_with_library] run_with_library by simp

subsection \<open>Repeated options\<close>

lemma last_occurrence_Nil: "last_occurrence k [] = None"
  by (simp add: last_occurrence_def)

lemma last_occurrence_Cons:
  "last_occurrence k ((k', s) # opts) =
     (case last_occurrence k opts of
        None \<Rightarrow> if k' = k then Some s else None
      | Some t \<Rightarrow> Some t)"
  by (cases "filter (\<lambda>e. fst e = k) opts") (simp_all add: last_occurrence_def)

lemma parse_options_last:
  assumes "\<forall>e\<in>set opts. fst e \<in> set ''muabc''"
  shows "parse_options m u a b c opts =
     Run (case last_occurrence CHR ''m'' opts of None \<Rightarrow> m | Some s \<Rightarrow> s)
         (u \<or> CHR ''u'' \<in> fst ` set opts)
         (case last_occurrence CHR ''a'' opts of None \<Rightarrow> a | Some s \<Rightarrow> strtof s)
         (case last_occurrence CHR ''b'' opts of None \<Rightarrow> b | Some s \<Rightarrow> strtof s)
         (case last_occurrence CHR ''c'' opts of None \<Rightarrow> c | Some s \<Rightarrow> strtof s)"
  using assms
proof (induction opts arbitrary: m u a b c)
  case Nil
  show ?case by (simp add: last_occurrence_Nil)
next
  case (Cons e opts)
  obtain k s where e: "e = (k, s)" by (cases e)
  from Cons.prems have r: "\<forall>e\<in>set opts. fst e \<in> set ''muabc''" by simp
  from Cons.prems e have "k = CHR ''m'' \<or> k = CHR ''u'' \<or> k = CHR ''a'' \<or> k = CHR ''b'' \<or> k = CHR ''c''"
    by simp
  then show ?case
    unfolding e
    by (elim disjE) (simp_all add: Cons.IH [OF r] last_occurrence_Cons split: option.splits)
qed

text \<open>
  C9. On a command line whose options are all among \<^verbatim>\<open>--mode\<close>, \<^verbatim>\<open>--use-lib\<close>,
  \<^verbatim>\<open>--a\<close>, \<^verbatim>\<open>--b\<close>, \<^verbatim>\<open>--c\<close> (in any spelling that getopt_long accepts), main goes
  on after the option loop with, for each of mode, a, b, c, the value given by the last
  occurrence of its option, or its default when the option does not occur. No earlier
  occurrence has any effect.
\<close>

theorem last_occurrence_wins:
  assumes "\<forall>e\<in>set (getopt_long args optstring long_options). fst e \<in> set ''muabc''"
  shows "main env prog args =
     load_and_dispatch env prog
       (case last_occurrence CHR ''m'' (getopt_long args optstring long_options) of
          None \<Rightarrow> ''scalar'' | Some s \<Rightarrow> s)
       (CHR ''u'' \<in> fst ` set (getopt_long args optstring long_options))
       (case last_occurrence CHR ''a'' (getopt_long args optstring long_options) of
          None \<Rightarrow> float_const ''1.0'' | Some s \<Rightarrow> strtof s)
       (case last_occurrence CHR ''b'' (getopt_long args optstring long_options) of
          None \<Rightarrow> float_const ''2.0'' | Some s \<Rightarrow> strtof s)
       (case last_occurrence CHR ''c'' (getopt_long args optstring long_options) of
          None \<Rightarrow> float_const ''3.0'' | Some s \<Rightarrow> strtof s)"
  by (simp add: main_def run_options_def parse_options_last [OF assms])

lemma getopt_repeated:
  "getopt_long [''--a'', ''7'', ''--mode'', ''vector'', ''--a=1.5'', ''-m'', ''scalar'', ''-a4'']
     optstring long_options =
   [(CHR ''a'', ''7''), (CHR ''m'', ''vector''), (CHR ''a'', ''1.5''), (CHR ''m'', ''scalar''),
    (CHR ''a'', ''4'')]"
  by (simp add: getopt_long_def optstring_def long_options_def long_match_def cong: let_weak_cong)

theorem last_occurrence_wins_witness:
  "main no_library ''binary_playground''
     [''--a'', ''7'', ''--mode'', ''vector'', ''--a=1.5'', ''-m'', ''scalar'', ''-a4''] =
   load_and_dispatch no_library ''binary_playground'' ''scalar'' False
     (strtof ''4'') (float_const ''2.0'') (float_const ''3.0'')"
  using last_occurrence_wins [of
      "[''--a'', ''7'', ''--mode'', ''vector'', ''--a=1.5'', ''-m'', ''scalar'', ''-a4'']"
      no_library "''binary_playground''"]
  by (simp add: getopt_repeated last_occurrence_def)

subsection \<open>Independence of a, b, c\<close>

lemma without_abc_Cons:
  "without_abc ((k, s) # opts) =
     (if k = CHR ''a'' \<or> k = CHR ''b'' \<or> k = CHR ''c'' then without_abc opts
      else (k, s) # without_abc opts)"
  by (simp add: without_abc_def)

lemma parse_options_without_abc:
  "parse_options m u a b c opts = Exit n \<Longrightarrow>
     parse_options m u a' b' c' (without_abc opts) = Exit n"
  "parse_options m u a b c opts = Run m1 u1 a1 b1 c1 \<Longrightarrow>
     \<exists>a2 b2 c2. parse_options m u a' b' c' (without_abc opts) = Run m1 u1 a2 b2 c2"
proof (induction opts arbitrary: m u a b c a' b' c')
  case Nil
  {
    case 1
    then show ?case by (simp add: without_abc_def)
  next
    case 2
    then show ?case by (simp add: without_abc_def)
  }
next
  case (Cons e opts)
  obtain k s where e: "e = (k, s)" by (cases e)
  {
    case 1
    then show ?case
      unfolding e by (auto simp: without_abc_Cons Cons.IH(1) split: if_splits)
  next
    case 2
    then show ?case
      unfolding e by (auto simp: without_abc_Cons split: if_splits intro: Cons.IH(2))
  }
qed

lemma dispatch_ignores_abc:
  "m \<noteq> ''scalar'' \<Longrightarrow>
   dispatch prog m u a b c handle f1 f2 f3 tr = dispatch prog m u a' b' c' handle f1 f2 f3 tr"
  by (simp add: dispatch_def)

text \<open>
  C10. Take two command lines that differ only in their \<^verbatim>\<open>--a\<close>, \<^verbatim>\<open>--b\<close>, \<^verbatim>\<open>--c\<close>
  options (which ones occur, how often and with what arguments), the first of which
  selects the mode vector or struct and does not ask for the library. Then both runs of
  main have the same outcome: exit status, standard output, standard error and calls.
\<close>

theorem vector_struct_ignore_abc:
  assumes same: "without_abc (getopt_long args optstring long_options) =
      without_abc (getopt_long args' optstring long_options)"
    and run: "parse_options ''scalar'' False (float_const ''1.0'') (float_const ''2.0'')
      (float_const ''3.0'') (getopt_long args optstring long_options) = Run m False a b c"
    and m: "m = ''vector'' \<or> m = ''struct''"
  shows "main env prog args = main env prog args'"
proof -
  let ?p = "parse_options ''scalar'' False (float_const ''1.0'') (float_const ''2.0'')
      (float_const ''3.0'')"
  let ?o = "getopt_long args optstring long_options"
  let ?o' = "getopt_long args' optstring long_options"
  from m have ns: "m \<noteq> ''scalar''" by auto
  from parse_options_without_abc(2) [OF run]
  obtain a2 b2 c2 where w: "?p (without_abc ?o) = Run m False a2 b2 c2" by blast
  have "\<exists>a3 b3 c3. ?p ?o' = Run m False a3 b3 c3"
  proof (cases "?p ?o'")
    case (Exit n)
    from parse_options_without_abc(1) [OF this]
    have "?p (without_abc ?o') = Exit n" .
    with w same show ?thesis by simp
  next
    case (Run m1 u1 a1 b1 c1)
    from parse_options_without_abc(2) [OF this]
    obtain a4 b4 c4 where "?p (without_abc ?o') = Run m1 u1 a4 b4 c4" by blast
    with w same have "m1 = m" "u1 = False" by simp_all
    with Run show ?thesis by simp
  qed
  then obtain a3 b3 c3 where run': "?p ?o' = Run m False a3 b3 c3" by blast
  show ?thesis
    by (simp add: main_def run_options_def run run' load_and_dispatch_def
        dispatch_ignores_abc [OF ns, of _ _ a b c _ _ _ _ _ a3 b3 c3])
qed

lemma getopt_abc_examples:
  "getopt_long [''--mode'', ''vector'', ''--a'', ''1.5''] optstring long_options =
     [(CHR ''m'', ''vector''), (CHR ''a'', ''1.5'')]"
  "getopt_long [''--b'', ''7'', ''--mode'', ''vector'', ''--c'', ''-2e3'', ''--b=0''] optstring long_options =
     [(CHR ''b'', ''7''), (CHR ''m'', ''vector''), (CHR ''c'', ''-2e3''), (CHR ''b'', ''0'')]"
  by (simp_all add: getopt_long_def optstring_def long_options_def long_match_def cong: let_weak_cong)

theorem vector_struct_ignore_abc_witness:
  "main no_library ''binary_playground'' [''--mode'', ''vector'', ''--a'', ''1.5''] =
   main no_library ''binary_playground''
     [''--b'', ''7'', ''--mode'', ''vector'', ''--c'', ''-2e3'', ''--b=0'']"
  using vector_struct_ignore_abc [of "[''--mode'', ''vector'', ''--a'', ''1.5'']"
      "[''--b'', ''7'', ''--mode'', ''vector'', ''--c'', ''-2e3'', ''--b=0'']" "''vector''"
      "strtof ''1.5''" "float_const ''2.0''" "float_const ''3.0''" no_library "''binary_playground''"]
  by (simp add: getopt_abc_examples without_abc_def)

end
